theory Spec2Isabelle
  imports Main "HOL-Library.AList" "HOL-Library.Sublist" "HOL-Library.Char_ord"
    "HOL-Library.List_Lexorder"
begin

section \<open>JavaScript values, thrown errors and POSIX paths\<close>

text \<open>
  The sources are TypeScript modules (strict mode). A thrown value is modelled by the
  three properties the code inspects: its \<open>message\<close>, the HTTP \<open>status\<close> an Octokit
  request error carries, and the \<open>code\<close> a Node file-system error carries. A call that can
  throw returns \<open>js_error + 'a\<close>, with \<open>Inl\<close> the thrown value.
  Strings are \<open>char list\<close>s; the characters the code inspects (\<open>/\<close>, \<open>$\<close>,
  \<open>\\<close>, \<open>.\<close>) are ASCII, so a UTF-8 reading of any other character behaves the same.
\<close>

datatype js_error = JsError (message: string) (status: "nat option") (code: "string option")

definition Error :: "string \<Rightarrow> js_error" where
  "Error msg = JsError msg None None"


definition FileTooLarge :: js_error where
  "FileTooLarge = Error ''file_too_big''"

definition FileNotAccessible :: js_error where
  "FileNotAccessible = Error ''file_not_accessible''"

text \<open>
  A property write on a primitive value throws a \<open>TypeError\<close> in strict mode.
\<close>

definition TypeError :: js_error where
  "TypeError = Error ''TypeError''"

subsection \<open>\<open>String.prototype.split("/")\<close> and Node's \<open>path.posix\<close>\<close>

text \<open>
  \<open>split_on c s\<close> is \<open>s.split(c)\<close> for a one-character separator: it always returns at
  least one piece, and an empty piece between two adjacent separators.
\<close>

fun split_on :: "char \<Rightarrow> string \<Rightarrow> string list" where
  "split_on c [] = [[]]"
| "split_on c (x # xs) =
     (if x = c then [] # split_on c xs
      else (case split_on c xs of
              [] \<Rightarrow> [[x]]
            | s # ss \<Rightarrow> (x # s) # ss))"

fun join_with :: "char \<Rightarrow> string list \<Rightarrow> string" where
  "join_with c [] = []"
| "join_with c [s] = s"
| "join_with c (s # t # ss) = s @ c # join_with c (t # ss)"

text \<open>
  Node's \<open>normalizeString\<close>, on the segments of the path: empty segments and \<open>.\<close> are
  dropped; \<open>..\<close> removes the segment before it, and is kept only where nothing is left to
  remove and the path is relative (\<open>allowAboveRoot\<close>). The third argument is the result so
  far, last segment first.
\<close>

fun normalizeString :: "bool \<Rightarrow> string list \<Rightarrow> string list \<Rightarrow> string list" where
  "normalizeString allowAboveRoot [] res = rev res"
| "normalizeString allowAboveRoot (s # ss) res =
     (if s = [] \<or> s = ''.'' then normalizeString allowAboveRoot ss res
      else if s = ''..'' then
        (case res of
           [] \<Rightarrow> normalizeString allowAboveRoot ss (if allowAboveRoot then [''..''] else [])
         | r # rs \<Rightarrow>
             if r = ''..'' then normalizeString allowAboveRoot ss (''..'' # res)
             else normalizeString allowAboveRoot ss rs)
      else normalizeString allowAboveRoot ss (s # res))"

definition normalize :: "string \<Rightarrow> string" where
  "normalize p =
     (if p = [] then ''.''
      else
        let isAbsolute = (hd p = CHR ''/'');
            trailingSeparator = (last p = CHR ''/'');
            q = join_with CHR ''/'' (normalizeString (\<not> isAbsolute) (split_on CHR ''/'' p) [])
        in if q = [] then (if isAbsolute then ''/'' else if trailingSeparator then ''./'' else ''.'')
           else (if isAbsolute then ''/'' else []) @ q @ (if trailingSeparator then ''/'' else []))"

text \<open>\<open>path.join\<close>: the non-empty arguments, joined by \<open>/\<close>, then normalized.\<close>

definition join :: "string list \<Rightarrow> string" where
  "join args =
     (let joined = join_with CHR ''/'' (filter (\<lambda>a. a \<noteq> []) args)
      in if joined = [] then ''.'' else normalize joined)"

text \<open>
  \<open>path.dirname\<close>: trailing separators are skipped, then the text before the last
  separator is kept; the first character is never taken for that separator.
\<close>

definition dirname :: "string \<Rightarrow> string" where
  "dirname p =
     (if p = [] then ''.''
      else
        let hasRoot = (hd p = CHR ''/'');
            r = dropWhile (\<lambda>c. c \<noteq> CHR ''/'') (dropWhile (\<lambda>c. c = CHR ''/'') (rev (tl p)))
        in if r = [] then (if hasRoot then ''/'' else ''.'')
           else if hasRoot \<and> length r = 1 then ''//''
           else take (length r) p)"

text \<open>\<open>path.basename\<close>: the last segment, trailing separators skipped.\<close>

definition basename :: "string \<Rightarrow> string" where
  "basename p = rev (takeWhile (\<lambda>c. c \<noteq> CHR ''/'') (dropWhile (\<lambda>c. c = CHR ''/'') (rev p)))"

text \<open>\<open>s.replace(pat, "")\<close> with a string pattern: the first occurrence is removed.\<close>

fun replace_first :: "string \<Rightarrow> string \<Rightarrow> string" where
  "replace_first pat [] = []"
| "replace_first pat (c # cs) =
     (if take (length pat) (c # cs) = pat then drop (length pat) (c # cs)
      else c # replace_first pat cs)"

text \<open>\<open>Number.prototype.toString()\<close> of a non-negative integer: its decimal digits.\<close>

fun digits :: "nat \<Rightarrow> nat \<Rightarrow> string \<Rightarrow> string" where
  "digits 0 n acc = acc"
| "digits (Suc fuel) n acc =
     (let acc' = char_of (48 + n mod 10) # acc
      in if n < 10 then acc' else digits fuel (n div 10) acc')"

definition toString :: "nat \<Rightarrow> string" where
  "toString n = digits (Suc n) n []"

section \<open>The tree of a repository\<close>

text \<open>
  A \<open>Tree\<close> is a JavaScript object: its keys are path segments, its values are nested
  trees or file entries \<open>{size, sha}\<close>. The code casts what it reads to \<open>Tree\<close> without
  a check, so the model keeps the run-time values: a number, a string, or an object as the
  list of its own properties in insertion order. A property write keeps the position of a key
  that exists and appends a new one (\<open>AList.update\<close>).
  Property reads are reads of own properties. The code reads \<open>current[p]\<close> through the
  prototype chain, so the model agrees with it only where no segment names a member inherited
  from \<open>Object.prototype\<close> (\<open>constructor\<close>, \<open>toString\<close>, \<open>__proto__\<close>, ...) or, below
  a number or a string, from \<open>Number.prototype\<close> or \<open>String.prototype\<close>. The place of
  integer-like keys in the enumeration order is not modelled either.
\<close>

datatype jsval = Num nat | Str string | Obj "(string \<times> jsval) list"

definition FileEntry :: "nat \<Rightarrow> string \<Rightarrow> jsval" where
  "FileEntry sz h = Obj [(''size'', Num sz), (''sha'', Str h)]"

fun truthy :: "jsval \<Rightarrow> bool" where
  "truthy (Num n) = (n \<noteq> 0)"
| "truthy (Str s) = (s \<noteq> [])"
| "truthy (Obj kvs) = True"

text \<open>
  \<open>current[p]\<close>: \<open>None\<close> is \<open>undefined\<close>. A string has its \<open>length\<close> and its
  characters at the canonical decimal indices; a number has no own property.
\<close>

fun get_prop :: "jsval \<Rightarrow> string \<Rightarrow> jsval option" where
  "get_prop (Obj kvs) p = map_of kvs p"
| "get_prop (Str s) p =
     (if p = ''length'' then Some (Num (length s))
      else (case filter (\<lambda>i. toString i = p) [0..<length s] of
              [] \<Rightarrow> None
            | i # _ \<Rightarrow> Some (Str [s ! i])))"
| "get_prop (Num n) p = None"

text \<open>\<open>current[p] = v\<close>: on a primitive the write throws.\<close>

fun set_prop :: "jsval \<Rightarrow> string \<Rightarrow> jsval \<Rightarrow> js_error + jsval" where
  "set_prop (Obj kvs) p v = Inr (Obj (AList.update p v kvs))"
| "set_prop (Str s) p v = Inl TypeError"
| "set_prop (Num n) p v = Inl TypeError"

text \<open>The escape of a segment that starts with the reserved marker \<open>$\<close>.\<close>

definition escape :: "string \<Rightarrow> string" where
  "escape p = (case p of [] \<Rightarrow> p | c # _ \<Rightarrow> if c = CHR ''$'' then CHR 0x5C # p else p)"

subsection \<open>The entries of a remote listing\<close>

record tree_entry =
  entry_path :: "string option"
  entry_type :: "string option"
  entry_sha :: "string option"
  entry_size :: "nat option"

record tree_data =
  tree :: "tree_entry list"
  truncated :: bool

definition falsy_string :: "string option \<Rightarrow> bool" where
  "falsy_string s = (s = None \<or> s = Some [])"

text \<open>\<open>path.join(parentPath, elem.path).split("/")\<close>.\<close>

definition paths_of :: "string \<Rightarrow> string \<Rightarrow> string list" where
  "paths_of parentPath p = split_on CHR ''/'' (join [parentPath, p])"

subsection \<open>\<open>GitHubStream.tree2Tree\<close>\<close>

text \<open>
  The inner loop of \<open>tree2Tree\<close> walks \<open>current\<close> down the first \<open>end\<close> segments (\<open>n\<close> below),
  creating an empty object where \<open>current[p]\<close> is missing or falsy, and for a blob
  assigns the file entry at the last segment. The source mutates the objects in place;
  the model rebuilds the object on the way back (the nested objects are never shared).
  \<open>walk current ps final\<close>: \<open>ps\<close> are the segments to descend, \<open>final\<close> is the last
  assignment of a blob (its unescaped segment and the entry), if any.
\<close>

fun walk :: "jsval \<Rightarrow> string list \<Rightarrow> (string \<times> jsval) option \<Rightarrow> js_error + jsval" where
  "walk current [] None = Inr current"
| "walk current [] (Some (p, entry)) = set_prop current (escape p) entry"
| "walk current (p0 # ps) final =
     (let p = escape p0;
          created =
            (case get_prop current p of
               None \<Rightarrow> set_prop current p (Obj [])
             | Some v \<Rightarrow> if truthy v then Inr current else set_prop current p (Obj []))
      in case created of
           Inl e \<Rightarrow> Inl e
         | Inr current1 \<Rightarrow>
             (case get_prop current1 p of
                None \<Rightarrow> Inl TypeError
              | Some child \<Rightarrow>
                  (case walk child ps final of
                     Inl e \<Rightarrow> Inl e
                   | Inr child' \<Rightarrow>
                       (case current1 of
                          Obj kvs \<Rightarrow> Inr (Obj (AList.update p child' kvs))
                        | _ \<Rightarrow> Inr current1))))"

text \<open>One element of the listing: the body of the outer loop.\<close>

definition tree2Tree_elem :: "tree_entry \<Rightarrow> jsval \<Rightarrow> string \<Rightarrow> js_error + jsval" where
  "tree2Tree_elem elem partialTree parentPath =
     (if falsy_string (entry_path elem) then Inr partialTree
      else
        let paths = paths_of parentPath (the (entry_path elem));
            n = (if entry_type elem = Some ''tree'' then length paths else length paths - 1)
        in walk partialTree (take n paths)
             (if entry_type elem = Some ''blob''
              then Some (paths ! n,
                         FileEntry (case entry_size elem of None \<Rightarrow> 0 | Some n \<Rightarrow> n)
                                   (case entry_sha elem of None \<Rightarrow> [] | Some h \<Rightarrow> h))
              else None))"

fun tree2Tree :: "tree_entry list \<Rightarrow> jsval \<Rightarrow> string \<Rightarrow> js_error + jsval" where
  "tree2Tree [] partialTree parentPath = Inr partialTree"
| "tree2Tree (elem # rest) partialTree parentPath =
     (case tree2Tree_elem elem partialTree parentPath of
        Inl e \<Rightarrow> Inl e
      | Inr t \<Rightarrow> tree2Tree rest t parentPath)"

section \<open>The streaming source: \<open>GitHubStream\<close>\<close>

text \<open>
  The remote API and the token helper are collaborators whose code is not part of the
  source files; they are parameters of the model. \<open>getToken\<close> is the outcome of
  \<open>this.getToken()\<close>, \<open>git_getTree sha recursive\<close> the outcome of
  \<open>octokit.git.getTree\<close> for a tree id with or without the \<open>recursive\<close> flag, and
  \<open>git_getBlob\<close> the outcome of \<open>octokit.rest.git.getBlob\<close>. Every request that is
  issued is appended to a log of calls, so that a theorem can say which requests were made.
\<close>

record blob_data =
  blob_content :: "string option"
  blob_encoding :: string
  blob_size :: nat

record github =
  getToken :: "js_error + string"
  git_getTree :: "string \<Rightarrow> bool \<Rightarrow> js_error + tree_data"
  git_getBlob :: "string \<Rightarrow> js_error + blob_data"

datatype call = GetTree string bool | GetBlob string

subsection \<open>\<open>getTree\<close> and \<open>getTruncatedTree\<close>\<close>

text \<open>
  The inner loop of \<open>getTruncatedTree\<close> looks the segments of \<open>elementPath\<close> up in the
  accumulated tree, as they are: \<open>missing current paths\<close> holds when the loop reaches a
  segment with \<open>!current[p]\<close>.
\<close>

fun missing :: "jsval \<Rightarrow> string list \<Rightarrow> bool" where
  "missing current [] = False"
| "missing current (p # ps) =
     (case get_prop current p of
        None \<Rightarrow> True
      | Some v \<Rightarrow> if truthy v then missing v ps else True)"

text \<open>
  \<open>getTree\<close> calls \<open>getTruncatedTree\<close>, which calls \<open>getTree\<close> for the children it
  misses: a remote API may answer so that this never ends, so the functions take fuel (one
  unit for each call of \<open>getTree\<close>) and return \<open>None\<close> when it runs out. The result is
  the tree or the thrown value, with the log of the requests issued.
\<close>

function (sequential) getTree ::
    "nat \<Rightarrow> github \<Rightarrow> string \<Rightarrow> jsval \<Rightarrow> string \<Rightarrow> call list
      \<Rightarrow> ((js_error + jsval) \<times> call list) option"
  and getTruncatedTree ::
    "nat \<Rightarrow> github \<Rightarrow> string \<Rightarrow> jsval \<Rightarrow> string \<Rightarrow> call list
      \<Rightarrow> ((js_error + jsval) \<times> call list) option"
  and getTruncatedTree_loop ::
    "nat \<Rightarrow> github \<Rightarrow> tree_entry list \<Rightarrow> jsval \<Rightarrow> string \<Rightarrow> call list
      \<Rightarrow> ((js_error + jsval) \<times> call list) option"
where
  "getTree 0 gh sha truncatedTree parentPath log = None"
| "getTree (Suc k) gh sha truncatedTree parentPath log =
     (case getToken gh of
        Inl e \<Rightarrow> Some (Inl e, log)
      | Inr token \<Rightarrow>
          (case git_getTree gh sha True of
             Inl e \<Rightarrow> Some (Inl e, log @ [GetTree sha True])
           | Inr ghRes \<Rightarrow>
               (case tree2Tree (tree ghRes) truncatedTree parentPath of
                  Inl e \<Rightarrow> Some (Inl e, log @ [GetTree sha True])
                | Inr t \<Rightarrow>
                    if truncated ghRes
                    then getTruncatedTree k gh sha t parentPath (log @ [GetTree sha True])
                    else Some (Inr t, log @ [GetTree sha True]))))"
| "getTruncatedTree k gh sha truncatedTree parentPath log =
     (case getToken gh of
        Inl e \<Rightarrow> Some (Inl e, log)
      | Inr token \<Rightarrow>
          (case git_getTree gh sha False of
             Inl e \<Rightarrow> Some (Inl e, log @ [GetTree sha False])
           | Inr ghRes \<Rightarrow>
               (case getTruncatedTree_loop k gh (tree ghRes) truncatedTree parentPath
                       (log @ [GetTree sha False]) of
                  None \<Rightarrow> None
                | Some (Inl e, log') \<Rightarrow> Some (Inl e, log')
                | Some (Inr t, log') \<Rightarrow>
                    (case tree2Tree (tree ghRes) t parentPath of
                       Inl e \<Rightarrow> Some (Inl e, log')
                     | Inr t' \<Rightarrow> Some (Inr t', log')))))"
| "getTruncatedTree_loop k gh [] truncatedTree parentPath log = Some (Inr truncatedTree, log)"
| "getTruncatedTree_loop k gh (elem # rest) truncatedTree parentPath log =
     (if falsy_string (entry_path elem)
      then getTruncatedTree_loop k gh rest truncatedTree parentPath log
      else if entry_type elem = Some ''tree'' then
        (let elementPath = join [parentPath, the (entry_path elem)];
             paths = split_on CHR ''/'' elementPath
         in if missing truncatedTree paths \<and> \<not> falsy_string (entry_sha elem) then
              (case getTree k gh (the (entry_sha elem)) truncatedTree elementPath log of
                 None \<Rightarrow> None
               | Some (Inl e, log') \<Rightarrow> Some (Inl e, log')
               | Some (Inr t, log') \<Rightarrow> getTruncatedTree_loop k gh rest t parentPath log')
            else getTruncatedTree_loop k gh rest truncatedTree parentPath log)
      else getTruncatedTree_loop k gh rest truncatedTree parentPath log)"

  by pat_completeness auto

termination
  by (relation "measures [
     (\<lambda>x. case x of Inl (k, _) \<Rightarrow> 2 * k | Inr (Inl (k, _)) \<Rightarrow> 2 * k + 1
                  | Inr (Inr (k, _)) \<Rightarrow> 2 * k + 1),
     (\<lambda>x. case x of Inl _ \<Rightarrow> 0 | Inr (Inl _) \<Rightarrow> 1 | Inr (Inr _) \<Rightarrow> 0),
     (\<lambda>x. case x of Inl _ \<Rightarrow> 0 | Inr (Inl _) \<Rightarrow> 0
                  | Inr (Inr (k, gh, es, _)) \<Rightarrow> length es)]") auto

text \<open>\<open>getFiles\<close>: the tree of the selected commit, from an empty tree and an empty log.\<close>

definition getFiles :: "nat \<Rightarrow> github \<Rightarrow> string \<Rightarrow> ((js_error + jsval) \<times> call list) option" where
  "getFiles k gh commit = getTree k gh commit (Obj []) [] []"

subsection \<open>\<open>getFileContent\<close>\<close>

text \<open>
  \<open>Buffer.toString()\<close> decodes the bytes as UTF-8: a well-formed sequence gives its code
  point, and every maximal ill-formed part gives the replacement character \<open>U+FFFD\<close>.
  A text is the list of its code points. The decoder keeps the number of continuation bytes it
  still needs, the code point so far, and the range allowed for the next byte.
\<close>

type_synonym utf8_state = "nat \<times> nat \<times> nat \<times> nat"

definition utf8_lead :: "nat \<Rightarrow> nat list \<times> utf8_state" where
  "utf8_lead b =
     (if b \<le> 0x7F then ([b], (0, 0, 0x80, 0xBF))
      else if 0xC2 \<le> b \<and> b \<le> 0xDF then ([], (1, b mod 32, 0x80, 0xBF))
      else if 0xE0 \<le> b \<and> b \<le> 0xEF then
        ([], (2, b mod 16, if b = 0xE0 then 0xA0 else 0x80, if b = 0xED then 0x9F else 0xBF))
      else if 0xF0 \<le> b \<and> b \<le> 0xF4 then
        ([], (3, b mod 8, if b = 0xF0 then 0x90 else 0x80, if b = 0xF4 then 0x8F else 0xBF))
      else ([0xFFFD], (0, 0, 0x80, 0xBF)))"

fun utf8_decode :: "nat list \<Rightarrow> utf8_state \<Rightarrow> nat list" where
  "utf8_decode [] (needed, cp, lower, upper) = (if needed = 0 then [] else [0xFFFD])"
| "utf8_decode (b # bs) (needed, cp, lower, upper) =
     (if needed = 0 then
        (case utf8_lead b of (out, st) \<Rightarrow> out @ utf8_decode bs st)
      else if lower \<le> b \<and> b \<le> upper then
        (if needed = 1 then (cp * 64 + b mod 64) # utf8_decode bs (0, 0, 0x80, 0xBF)
         else utf8_decode bs (needed - 1, cp * 64 + b mod 64, 0x80, 0xBF))
      else
        (case utf8_lead b of (out, st) \<Rightarrow> 0xFFFD # out @ utf8_decode bs st))"

definition Buffer_toString :: "string \<Rightarrow> nat list" where
  "Buffer_toString bytes = utf8_decode (map of_char bytes) (0, 0, 0x80, 0xBF)"

text \<open>
  \<open>Buffer.from(content, encoding)\<close> and the \<open>write\<close> of the storage module that
  \<open>GitHubStream\<close> imports (called with the cache path and the bytes) are parameters;
  \<open>'st\<close> is the state of that storage, and a write that throws leaves it as it was.
\<close>

record 'st runtime =
  Buffer_from :: "string \<Rightarrow> string \<Rightarrow> js_error + string"
  storage_write :: "string \<Rightarrow> string \<Rightarrow> 'st \<Rightarrow> js_error + 'st"

record AnonymizedFile =
  file_sha :: "string option"
  originalCachePath :: string

text \<open>The body of the \<open>try\<close> block: the text handed to the stream and the new storage.\<close>

definition getFileContent_try ::
    "github \<Rightarrow> 'st runtime \<Rightarrow> AnonymizedFile \<Rightarrow> 'st \<Rightarrow> js_error + nat list \<times> 'st" where
  "getFileContent_try gh rt file st =
     (case git_getBlob gh (the (file_sha file)) of
        Inl e \<Rightarrow> Inl e
      | Inr ghRes \<Rightarrow>
          if falsy_string (blob_content ghRes) \<and> blob_size ghRes \<noteq> 0
          then Inl (Error ''file_not_accessible'')
          else
            (case (if \<not> falsy_string (blob_content ghRes)
                   then Buffer_from rt (the (blob_content ghRes)) (blob_encoding ghRes)
                   else Inr []) of
               Inl e \<Rightarrow> Inl e
             | Inr content \<Rightarrow>
                 (case storage_write rt (originalCachePath file) content st of
                    Inl e \<Rightarrow> Inl e
                  | Inr st' \<Rightarrow> Inr (Buffer_toString content, st'))))"

text \<open>
  The \<open>catch\<close> block rethrows \<open>file_too_big\<close> for a caught value whose \<open>status\<close> is
  403; any other caught value is printed to the console and the function ends with
  \<open>file_not_accessible\<close>.
\<close>

definition getFileContent ::
    "github \<Rightarrow> 'st runtime \<Rightarrow> AnonymizedFile \<Rightarrow> 'st \<Rightarrow> call list
      \<Rightarrow> (js_error + nat list) \<times> 'st \<times> call list" where
  "getFileContent gh rt file st log =
     (if falsy_string (file_sha file) then (Inl (Error ''file_sha_not_provided''), st, log)
      else
        (case getToken gh of
           Inl e \<Rightarrow> (Inl e, st, log)
         | Inr token \<Rightarrow>
             (case getFileContent_try gh rt file st of
                Inr (text, st') \<Rightarrow> (Inr text, st', log @ [GetBlob (the (file_sha file))])
              | Inl error \<Rightarrow>
                  if status error = Some 403
                  then (Inl (Error ''file_too_big''), st, log @ [GetBlob (the (file_sha file))])
                  else (Inl (Error ''file_not_accessible''), st,
                        log @ [GetBlob (the (file_sha file))]))))"

section \<open>The file-system storage: \<open>FileSystem\<close>\<close>

subsection \<open>The disk\<close>

text \<open>
  The disk is a tree of nodes: a regular file with its inode number and bytes, a directory
  with its inode number and entries, or any other kind of node (a socket, a device).
  The operating system fixes no order for the names \<open>readdir\<close> returns; they are listed
  sorted by their bytes here. New nodes take the next free inode number.
  Paths are resolved from the root directory of the model, for relative paths too (the working
  directory is the root), and there are no symbolic links.
\<close>

datatype fsnode =
    FsFile nat string
  | FsDir nat "(string \<times> fsnode) list"
  | FsOther nat

record disk =
  root :: fsnode
  next_ino :: nat

datatype kind = Directory | RegularFile | OtherKind

record Stats =
  st_kind :: kind
  st_size :: nat
  st_ino :: nat

definition isDirectory :: "Stats \<Rightarrow> bool" where
  "isDirectory st = (st_kind st = Directory)"

definition isFile :: "Stats \<Rightarrow> bool" where
  "isFile st = (st_kind st = RegularFile)"

definition ENOENT :: js_error where
  "ENOENT = JsError ''no such file or directory'' None (Some ''ENOENT'')"

definition ENOTDIR :: js_error where
  "ENOTDIR = JsError ''not a directory'' None (Some ''ENOTDIR'')"

definition EEXIST :: js_error where
  "EEXIST = JsError ''file already exists'' None (Some ''EEXIST'')"

definition EISDIR :: js_error where
  "EISDIR = JsError ''illegal operation on a directory'' None (Some ''EISDIR'')"

text \<open>
  The segments the operating system follows for a path: \<open>..\<close> of the root is the root,
  and a path that ends with a separator is resolved as if \<open>.\<close> were appended to it, so
  that its last name must be a directory. The paths the operations pass are results of
  \<open>path.join\<close>, where \<open>.\<close> stands nowhere else.
\<close>

definition resolve :: "string \<Rightarrow> string list" where
  "resolve p =
     (let segments = normalizeString False (split_on CHR ''/'' p) []
      in if p \<noteq> [] \<and> last p = CHR ''/'' \<and> segments \<noteq> [] then segments @ [''.'']
         else segments)"

fun fs_lookup :: "fsnode \<Rightarrow> string list \<Rightarrow> js_error + fsnode" where
  "fs_lookup n [] = Inr n"
| "fs_lookup (FsDir i entries) (s # ss) =
     (if s = ''.'' then fs_lookup (FsDir i entries) ss
      else (case map_of entries s of
              None \<Rightarrow> Inl ENOENT
            | Some child \<Rightarrow> fs_lookup child ss))"
| "fs_lookup (FsFile i bytes) (s # ss) = Inl ENOTDIR"
| "fs_lookup (FsOther i) (s # ss) = Inl ENOTDIR"

fun stats_of :: "fsnode \<Rightarrow> Stats" where
  "stats_of (FsFile i bytes) = \<lparr>st_kind = RegularFile, st_size = length bytes, st_ino = i\<rparr>"
| "stats_of (FsDir i entries) = \<lparr>st_kind = Directory, st_size = 0, st_ino = i\<rparr>"
| "stats_of (FsOther i) = \<lparr>st_kind = OtherKind, st_size = 0, st_ino = i\<rparr>"

text \<open>\<open>fs.promises.stat\<close> and \<open>fs.promises.readdir\<close>.\<close>

definition stat :: "disk \<Rightarrow> string \<Rightarrow> js_error + Stats" where
  "stat d p =
     (case fs_lookup (root d) (resolve p) of
        Inl e \<Rightarrow> Inl e
      | Inr n \<Rightarrow> Inr (stats_of n))"

definition readdir :: "disk \<Rightarrow> string \<Rightarrow> js_error + string list" where
  "readdir d p =
     (case fs_lookup (root d) (resolve p) of
        Inl e \<Rightarrow> Inl e
      | Inr (FsDir i entries) \<Rightarrow> Inr (sort (map fst entries))
      | Inr (FsFile i bytes) \<Rightarrow> Inl ENOTDIR
      | Inr (FsOther i) \<Rightarrow> Inl ENOTDIR)"

text \<open>
  \<open>fs.promises.mkdir(p, {recursive: true})\<close>: the missing directories of the path are
  created; a directory that exists is no error, a node of another kind on the way is.
\<close>

fun mkdir_at :: "fsnode \<Rightarrow> string list \<Rightarrow> nat \<Rightarrow> js_error + fsnode \<times> nat" where
  "mkdir_at (FsDir i entries) [] ino = Inr (FsDir i entries, ino)"
| "mkdir_at (FsFile i bytes) [] ino = Inl EEXIST"
| "mkdir_at (FsOther i) [] ino = Inl EEXIST"
| "mkdir_at (FsDir i entries) (s # ss) ino =
     (if s = ''.'' then mkdir_at (FsDir i entries) ss ino
      else
        (case map_of entries s of
           None \<Rightarrow>
             (case mkdir_at (FsDir ino []) ss (Suc ino) of
                Inl e \<Rightarrow> Inl e
              | Inr (child, ino') \<Rightarrow> Inr (FsDir i (entries @ [(s, child)]), ino'))
         | Some child0 \<Rightarrow>
             (case mkdir_at child0 ss ino of
                Inl e \<Rightarrow> Inl e
              | Inr (child, ino') \<Rightarrow> Inr (FsDir i (AList.update s child entries), ino'))))"
| "mkdir_at (FsFile i bytes) (s # ss) ino = Inl ENOTDIR"
| "mkdir_at (FsOther i) (s # ss) ino = Inl ENOTDIR"

definition mkdir :: "disk \<Rightarrow> string \<Rightarrow> js_error + disk" where
  "mkdir d p =
     (case mkdir_at (root d) (resolve p) (next_ino d) of
        Inl e \<Rightarrow> Inl e
      | Inr (r, ino) \<Rightarrow> Inr \<lparr>root = r, next_ino = ino\<rparr>)"

text \<open>
  \<open>fs.promises.writeFile(p, data)\<close>: the parent directory must exist; a regular file
  at the path keeps its inode number and takes the new bytes, a missing one is created as
  the last entry of its directory. A path that ends with a separator names a directory and
  cannot be written.
\<close>

fun writeFile_at :: "fsnode \<Rightarrow> string list \<Rightarrow> string \<Rightarrow> nat \<Rightarrow> js_error + fsnode \<times> nat" where
  "writeFile_at n [] bytes ino = Inl EISDIR"
| "writeFile_at (FsDir i entries) [s] bytes ino =
     (if s = ''.'' then Inl EISDIR
      else
        (case map_of entries s of
           None \<Rightarrow> Inr (FsDir i (entries @ [(s, FsFile ino bytes)]), Suc ino)
         | Some (FsFile j old) \<Rightarrow> Inr (FsDir i (AList.update s (FsFile j bytes) entries), ino)
         | Some (FsDir j es) \<Rightarrow> Inl EISDIR
         | Some (FsOther j) \<Rightarrow> Inr (FsDir i entries, ino)))"
| "writeFile_at (FsDir i entries) (s # t # ss) bytes ino =
     (case map_of entries s of
        None \<Rightarrow> if t = ''.'' \<and> ss = [] then Inl EISDIR else Inl ENOENT
      | Some child0 \<Rightarrow>
          (case writeFile_at child0 (t # ss) bytes ino of
             Inl e \<Rightarrow> Inl e
           | Inr (child, ino') \<Rightarrow> Inr (FsDir i (AList.update s child entries), ino')))"
| "writeFile_at (FsFile i old) (s # ss) bytes ino = Inl ENOTDIR"
| "writeFile_at (FsOther i) (s # ss) bytes ino = Inl ENOTDIR"

definition writeFile :: "disk \<Rightarrow> string \<Rightarrow> string \<Rightarrow> js_error + disk" where
  "writeFile d p bytes =
     (case writeFile_at (root d) (resolve p) bytes (next_ino d) of
        Inl e \<Rightarrow> Inl e
      | Inr (r, ino) \<Rightarrow> Inr \<lparr>root = r, next_ino = ino\<rparr>)"

subsection \<open>The operations of \<open>FileSystem\<close>\<close>

text \<open>
  \<open>config.FOLDER\<close> and \<open>StorageBase.repoPath\<close> are not part of the source files; they are
  parameters. The tracing spans record attributes and exceptions and change no result.
\<close>

record config =
  config_FOLDER :: string
  repoPath :: "string \<Rightarrow> string"

datatype FILE_TYPE = FILE | FOLDER | NOT_FOUND

text \<open>\<open>exists\<close>: whatever \<open>stat\<close> throws is caught and ignored.\<close>

definition exists :: "config \<Rightarrow> disk \<Rightarrow> string \<Rightarrow> string \<Rightarrow> js_error + FILE_TYPE" where
  "exists cfg d repoId p =
     (let fullPath = join [config_FOLDER cfg, repoPath cfg repoId, p]
      in case stat d fullPath of
           Inl _ \<Rightarrow> Inr NOT_FOUND
         | Inr st \<Rightarrow>
             if isDirectory st then Inr FOLDER
             else if isFile st then Inr FILE
             else Inr NOT_FOUND)"

text \<open>\<open>mk\<close>: an error whose code is \<open>EEXIST\<close> is swallowed, any other is thrown again.\<close>

definition mk :: "config \<Rightarrow> disk \<Rightarrow> string \<Rightarrow> string \<Rightarrow> js_error + disk" where
  "mk cfg d repoId dir =
     (let fullPath = join [config_FOLDER cfg, repoPath cfg repoId, dir]
      in case mkdir d fullPath of
           Inl err \<Rightarrow> if code err \<noteq> Some ''EEXIST'' then Inl err else Inr d
         | Inr d' \<Rightarrow> Inr d')"

text \<open>\<open>write\<close> (\<open>FileSystem.write\<close>): \<open>mk\<close> of the directory of the path, then \<open>writeFile\<close>.\<close>

definition fs_write :: "config \<Rightarrow> disk \<Rightarrow> string \<Rightarrow> string \<Rightarrow> string \<Rightarrow> js_error + disk" where
  "fs_write cfg d repoId p bytes =
     (let fullPath = join [config_FOLDER cfg, repoPath cfg repoId, p]
      in case mk cfg d repoId (dirname p) of
           Inl e \<Rightarrow> Inl e
         | Inr d' \<Rightarrow> writeFile d' fullPath bytes)"

text \<open>
  \<open>listFiles\<close> calls itself for every entry that \<open>stat\<close> reports as a directory; it takes
  fuel, one unit for each call, and returns \<open>None\<close> when the fuel runs out. Its result is the
  tree together with the calls of \<open>opt.onEntry\<close> in the order they are made, each with the
  \<open>path\<close> and \<open>size\<close> it is given. What is thrown inside the loop body (by \<open>stat\<close> or
  by the nested call) is caught there and the entry is left out.
\<close>

function (sequential) listFiles ::
    "nat \<Rightarrow> config \<Rightarrow> disk \<Rightarrow> string \<Rightarrow> string
      \<Rightarrow> (js_error + jsval \<times> (string \<times> nat) list) option"
  and listFiles_loop ::
    "nat \<Rightarrow> config \<Rightarrow> disk \<Rightarrow> string \<Rightarrow> string \<Rightarrow> string \<Rightarrow> string list
      \<Rightarrow> (string \<times> jsval) list \<Rightarrow> (string \<times> nat) list
      \<Rightarrow> ((string \<times> jsval) list \<times> (string \<times> nat) list) option"
where
  "listFiles 0 cfg d repoId dir = None"
| "listFiles (Suc k) cfg d repoId dir =
     (let fullPath = join [config_FOLDER cfg, repoPath cfg repoId, dir]
      in case readdir d fullPath of
           Inl e \<Rightarrow> Some (Inl e)
         | Inr files \<Rightarrow>
             (case listFiles_loop k cfg d repoId dir fullPath files [] [] of
                None \<Rightarrow> None
              | Some (output, entries) \<Rightarrow> Some (Inr (Obj output, entries))))"
| "listFiles_loop k cfg d repoId dir fullPath [] output entries = Some (output, entries)"
| "listFiles_loop k cfg d repoId dir fullPath (file0 # files) output entries =
     (let filePath = join [dir, file0]
      in case stat d (join [fullPath, filePath]) of
           Inl error \<Rightarrow> listFiles_loop k cfg d repoId dir fullPath files output entries
         | Inr stats \<Rightarrow>
             (let file = (case file0 of
                            [] \<Rightarrow> file0
                          | c # _ \<Rightarrow> if c = CHR ''$'' then CHR 0x5C # file0 else file0)
              in if isDirectory stats then
                   (case listFiles k cfg d repoId filePath of
                      None \<Rightarrow> None
                    | Some (Inl error) \<Rightarrow>
                        listFiles_loop k cfg d repoId dir fullPath files output entries
                    | Some (Inr (sub, entries')) \<Rightarrow>
                        listFiles_loop k cfg d repoId dir fullPath files
                          (AList.update file sub output) (entries @ entries'))
                 else if isFile stats then
                   listFiles_loop k cfg d repoId dir fullPath files
                     (AList.update file (FileEntry (st_size stats) (toString (st_ino stats))) output)
                     (entries @ [(filePath, st_size stats)])
                 else listFiles_loop k cfg d repoId dir fullPath files output entries))"
  by pat_completeness auto

termination
  by (relation "measures [
     (\<lambda>x. case x of Inl (k, _) \<Rightarrow> 2 * k | Inr (k, _) \<Rightarrow> 2 * k + 1),
     (\<lambda>x. case x of Inl _ \<Rightarrow> 0 | Inr (k, cfg, d, repoId, dir, fullPath, files, _) \<Rightarrow> length files)]")
    auto

text \<open>
  \<open>archive\<close>: each call of \<open>onEntry\<close> reads the file and appends it to the archive
  under \<open>name\<close> and \<open>prefix\<close>; the result is the list of these appends in the order of
  the calls.
\<close>

record archive_entry =
  name :: string
  prefix :: string

definition archive :: "nat \<Rightarrow> config \<Rightarrow> disk \<Rightarrow> string \<Rightarrow> string \<Rightarrow> (js_error + archive_entry list) option" where
  "archive k cfg d repoId dir =
     (let fullPath = join [config_FOLDER cfg, repoPath cfg repoId, dir]
      in case listFiles k cfg d repoId dir of
           None \<Rightarrow> None
         | Some (Inl e) \<Rightarrow> Some (Inl e)
         | Some (Inr (t, entries)) \<Rightarrow>
             Some (Inr (map (\<lambda>(path, sz).
                             let f = replace_first fullPath path
                             in \<lparr>name = basename f, prefix = dirname f\<rparr>) entries)))"

section \<open>Properties of the streaming source\<close>

subsection \<open>Requests and their errors\<close>

text \<open>
  \<open>request_error gh c\<close> is the value the request \<open>c\<close> throws, if it throws.
  \<open>surfaces gh log res log'\<close> relates a run that started with the log \<open>log\<close> and ended
  with \<open>res\<close> and the log \<open>log'\<close>: the run only appended requests; every request but the
  last one returned; and if the last one threw \<open>e\<close>, the run ended with \<open>e\<close> itself.
\<close>

definition request_error :: "github \<Rightarrow> call \<Rightarrow> js_error option" where
  "request_error gh c =
     (case c of
        GetTree sha recursive \<Rightarrow> (case git_getTree gh sha recursive of Inl e \<Rightarrow> Some e | Inr _ \<Rightarrow> None)
      | GetBlob sha \<Rightarrow> (case git_getBlob gh sha of Inl e \<Rightarrow> Some e | Inr _ \<Rightarrow> None))"

definition surfaces :: "github \<Rightarrow> call list \<Rightarrow> (js_error + 'a) \<Rightarrow> call list \<Rightarrow> bool" where
  "surfaces gh log res log' =
     (\<exists>new. log' = log @ new \<and>
        (\<forall>c \<in> set (butlast new). request_error gh c = None) \<and>
        (new \<noteq> [] \<longrightarrow> (\<forall>e. request_error gh (last new) = Some e \<longrightarrow> res = Inl e)))"

text \<open>
  \<open>needs_fetch elem t parentPath\<close>: the loop of \<open>getTruncatedTree\<close> calls \<open>getTree\<close>
  for \<open>elem\<close>.
\<close>

definition needs_fetch :: "tree_entry \<Rightarrow> jsval \<Rightarrow> string \<Rightarrow> bool" where
  "needs_fetch elem truncatedTree parentPath =
     (\<not> falsy_string (entry_path elem) \<and> entry_type elem = Some ''tree'' \<and>
      missing truncatedTree (split_on CHR ''/'' (join [parentPath, the (entry_path elem)])) \<and>
      \<not> falsy_string (entry_sha elem))"



section \<open>The structural invariant of a tree\<close>

text \<open>
  A file entry is an object with exactly the properties \<open>size\<close> (a number) and \<open>sha\<close>
  (a string). A well-formed tree is an object whose keys are distinct and whose values are
  each a file entry or a well-formed tree. A file entry is no well-formed tree (its values are
  a number and a string), so in a well-formed tree no key is a leaf and a subtree at once.
\<close>

fun is_file :: "jsval \<Rightarrow> bool" where
  "is_file (Obj [(k1, Num n), (k2, Str h)]) = (k1 = ''size'' \<and> k2 = ''sha'')"
| "is_file v = False"

fun wf_tree :: "jsval \<Rightarrow> bool" where
  "wf_tree (Obj kvs) =
     (distinct (map fst kvs) \<and> (\<forall>kv \<in> set kvs. is_file (snd kv) \<or> wf_tree (snd kv)))"
| "wf_tree (Num n) = False"
| "wf_tree (Str s) = False"

text \<open>\<open>no_empty_key t\<close>: no object of \<open>t\<close> has the empty string as a key.\<close>

fun no_empty_key :: "jsval \<Rightarrow> bool" where
  "no_empty_key (Obj kvs) = (\<forall>kv \<in> set kvs. fst kv \<noteq> [] \<and> no_empty_key (snd kv))"
| "no_empty_key (Num n) = True"
| "no_empty_key (Str s) = True"

text \<open>
  \<open>hits_file t ks\<close>: following the keys \<open>ks\<close> down from \<open>t\<close> steps into a file entry
  before the keys are used up.
\<close>

fun hits_file :: "jsval \<Rightarrow> string list \<Rightarrow> bool" where
  "hits_file t [] = False"
| "hits_file t (k # ks) =
     (case get_prop t k of
        None \<Rightarrow> False
      | Some v \<Rightarrow> (is_file v \<and> ks \<noteq> []) \<or> hits_file v ks)"

text \<open>
  The keys under which \<open>tree2Tree\<close> files an element, and the condition on a listing that
  no blob lies strictly above an element that comes after it. Elements without a path are
  skipped by the fold and by the condition.
\<close>

definition keys_of :: "string \<Rightarrow> tree_entry \<Rightarrow> string list" where
  "keys_of parentPath elem = map escape (paths_of parentPath (the (entry_path elem)))"

fun no_blob_above :: "string \<Rightarrow> tree_entry list \<Rightarrow> bool" where
  "no_blob_above parentPath [] = True"
| "no_blob_above parentPath (elem # rest) =
     ((falsy_string (entry_path elem) \<or> entry_type elem \<noteq> Some ''blob'' \<or>
       (\<forall>later \<in> set rest.
          falsy_string (entry_path later) \<or>
          \<not> strict_prefix (keys_of parentPath elem) (keys_of parentPath later))) \<and>
      no_blob_above parentPath rest)"

text \<open>
  The paths of the elements neither start nor end with a separator (the parent path may be
  empty).
\<close>

definition trimmed :: "string \<Rightarrow> bool" where
  "trimmed p = (p \<noteq> [] \<and> hd p \<noteq> CHR ''/'' \<and> last p \<noteq> CHR ''/'')"

text \<open>
  The names of the members that every object inherits from \<open>Object.prototype\<close>. The code
  reads \<open>current[p]\<close> through the prototype, the model reads own properties only, so the
  two agree on the listings none of whose keys is such a name.
\<close>

definition inherited_members :: "string list" where
  "inherited_members =
     [''constructor'', ''__defineGetter__'', ''__defineSetter__'', ''hasOwnProperty'',
      ''__lookupGetter__'', ''__lookupSetter__'', ''isPrototypeOf'', ''propertyIsEnumerable'',
      ''toString'', ''valueOf'', ''__proto__'', ''toLocaleString'']"


section \<open>Fixtures\<close>

subsection \<open>Fixtures of the streaming source\<close>

text \<open>Listing entries as the remote API returns them.\<close>

definition blob_entry :: "string \<Rightarrow> string \<Rightarrow> nat \<Rightarrow> tree_entry" where
  "blob_entry p h n =
     \<lparr>entry_path = Some p, entry_type = Some ''blob'', entry_sha = Some h, entry_size = Some n\<rparr>"

definition dir_entry :: "string \<Rightarrow> string \<Rightarrow> tree_entry" where
  "dir_entry p h =
     \<lparr>entry_path = Some p, entry_type = Some ''tree'', entry_sha = Some h, entry_size = None\<rparr>"

definition not_found :: js_error where
  "not_found = JsError ''Not Found'' (Some 404) None"

definition server_error :: js_error where
  "server_error = JsError ''Server Error'' (Some 500) None"

text \<open>
  A remote with two blobs: \<open>abc\<close>, the text \<open>hello\<close>, and \<open>ff\<close>, the single byte
  \<open>FF\<close> in base64; every other request ends with a 500 response. \<open>gh_no_token\<close> is the
  same remote when the token helper throws. The run-time \<open>rt_plain\<close> decodes the base64
  text of \<open>ff\<close>, leaves any other content as it is, and keeps the cache as an association
  list; \<open>rt_denied\<close> differs in that every write of the cache throws a value with status 403.
\<close>

definition gh_blobs :: github where
  "gh_blobs =
     \<lparr>getToken = Inr ''token'',
      git_getTree = (\<lambda>sha recursive. Inl server_error),
      git_getBlob = (\<lambda>sha.
        if sha = ''abc''
        then Inr \<lparr>blob_content = Some ''hello'', blob_encoding = ''utf-8'', blob_size = 5\<rparr>
        else if sha = ''ff''
        then Inr \<lparr>blob_content = Some ''/w=='', blob_encoding = ''base64'', blob_size = 1\<rparr>
        else Inl server_error)\<rparr>"



definition rt_plain :: "(string \<times> string) list runtime" where
  "rt_plain =
     \<lparr>Buffer_from = (\<lambda>content encoding.
        if content = ''/w=='' \<and> encoding = ''base64'' then Inr [CHR 0xFF] else Inr content),
      storage_write = (\<lambda>p bytes st. Inr (AList.update p bytes st))\<rparr>"




definition file_other :: AnonymizedFile where
  "file_other = \<lparr>file_sha = Some ''def'', originalCachePath = ''r1/b.txt''\<rparr>"

text \<open>
  A repository with the files \<open>a/x\<close> and \<open>a/y\<close>. The recursive listing of the commit
  \<open>c0\<close> is cut after \<open>a/x\<close> and marked truncated; the listing of the tree \<open>t_a\<close> of the
  directory is complete. \<open>full_listing\<close> is the recursive listing of \<open>c0\<close> without the cut.
\<close>

definition gh_cut :: github where
  "gh_cut =
     \<lparr>getToken = Inr ''token'',
      git_getTree = (\<lambda>sha recursive.
        if sha = ''c0'' \<and> recursive then
          Inr \<lparr>tree = [dir_entry ''a'' ''t_a'', blob_entry ''a/x'' ''b_x'' 1], truncated = True\<rparr>
        else if sha = ''c0'' then
          Inr \<lparr>tree = [dir_entry ''a'' ''t_a''], truncated = False\<rparr>
        else if sha = ''t_a'' then
          Inr \<lparr>tree = [blob_entry ''x'' ''b_x'' 1, blob_entry ''y'' ''b_y'' 2], truncated = False\<rparr>
        else Inl not_found),
      git_getBlob = (\<lambda>sha. Inl not_found)\<rparr>"

definition full_listing :: "tree_entry list" where
  "full_listing =
     [dir_entry ''a'' ''t_a'', blob_entry ''a/x'' ''b_x'' 1, blob_entry ''a/y'' ''b_y'' 2]"

text \<open>
  A repository with the directories \<open>$d\<close> (file \<open>f\<close>), \<open>p\<close> (file \<open>h\<close>) and \<open>e\<close>
  (file \<open>g\<close>). The truncated recursive listing of \<open>c0\<close> holds \<open>$d\<close> and \<open>p\<close> in full and
  nothing of \<open>e\<close>.
\<close>

definition gh_dollar :: github where
  "gh_dollar =
     \<lparr>getToken = Inr ''token'',
      git_getTree = (\<lambda>sha recursive.
        if sha = ''c0'' \<and> recursive then
          Inr \<lparr>tree = [dir_entry ''$d'' ''t_d'', blob_entry ''$d/f'' ''b_f'' 1,
                       dir_entry ''p'' ''t_p'', blob_entry ''p/h'' ''b_h'' 3],
               truncated = True\<rparr>
        else if sha = ''c0'' then
          Inr \<lparr>tree = [dir_entry ''$d'' ''t_d'', dir_entry ''e'' ''t_e'', dir_entry ''p'' ''t_p''],
               truncated = False\<rparr>
        else if sha = ''t_d'' then
          Inr \<lparr>tree = [blob_entry ''f'' ''b_f'' 1], truncated = False\<rparr>
        else if sha = ''t_e'' then
          Inr \<lparr>tree = [blob_entry ''g'' ''b_g'' 2], truncated = False\<rparr>
        else if sha = ''t_p'' then
          Inr \<lparr>tree = [blob_entry ''h'' ''b_h'' 3], truncated = False\<rparr>
        else Inl not_found),
      git_getBlob = (\<lambda>sha. Inl not_found)\<rparr>"

text \<open>
  Listings for the invariant. \<open>listing_same_path\<close> has a file entry and a directory entry at
  the path \<open>a\<close>, an element without a path, and a blob whose path has an empty component
  inside. \<open>listing_file_above\<close> lists a file below the blob \<open>a\<close>,
  \<open>listing_collision\<close> has a file named \<open>$a\<close> and a file in a directory whose name is
  \<open>$a\<close> with a backslash before it, and \<open>listing_trailing\<close> has a blob path that ends
  with a separator.
\<close>

definition listing_same_path :: "tree_entry list" where
  "listing_same_path =
     [blob_entry ''a'' ''b_a'' 1, dir_entry ''a'' ''t_a'',
      \<lparr>entry_path = None, entry_type = Some ''blob'', entry_sha = Some ''b_n'', entry_size = Some 4\<rparr>,
      blob_entry ''b//c'' ''b_c'' 3]"

definition listing_file_above :: "tree_entry list" where
  "listing_file_above =
     [blob_entry ''a'' ''b_a'' 1, dir_entry ''a'' ''t_a'', blob_entry ''a/x'' ''b_x'' 2]"

definition listing_collision :: "tree_entry list" where
  "listing_collision =
     [blob_entry ''$a'' ''b_a'' 1, blob_entry (CHR 0x5C # ''$a/x'') ''b_x'' 2]"

definition listing_trailing :: "tree_entry list" where
  "listing_trailing = [blob_entry ''a/'' ''b_a'' 1]"


subsection \<open>Fixtures of the file-system storage\<close>

text \<open>
  The storage root is \<open>/data\<close>, the cache of a repository is the directory \<open>original\<close>
  under its id, and the disk holds only its root directory. \<open>disk_b\<close> is that disk after the
  write of \<open>a/b.txt\<close> (10 bytes), \<open>disk_bc\<close> after the write of \<open>c.txt\<close> (5 bytes) too.
\<close>

definition cfg0 :: config where
  "cfg0 = \<lparr>config_FOLDER = ''/data'', repoPath = (\<lambda>repoId. join [repoId, ''original''] @ ''/'')\<rparr>"

definition empty_disk :: disk where
  "empty_disk = \<lparr>root = FsDir 1 [], next_ino = 2\<rparr>"

definition disk_b :: disk where
  "disk_b =
     \<lparr>root = FsDir 1 [(''data'', FsDir 2 [(''r1'', FsDir 3 [(''original'', FsDir 4
               [(''a'', FsDir 5 [(''b.txt'', FsFile 6 ''0123456789'')])])])])],
      next_ino = 7\<rparr>"

definition disk_bc :: disk where
  "disk_bc =
     \<lparr>root = FsDir 1 [(''data'', FsDir 2 [(''r1'', FsDir 3 [(''original'', FsDir 4
               [(''a'', FsDir 5 [(''b.txt'', FsFile 6 ''0123456789'')]),
                (''c.txt'', FsFile 7 ''01234'')])])])],
      next_ino = 8\<rparr>"

text \<open>
  A cache with the files \<open>a/b.txt\<close> (10 bytes, inode 6) and \<open>a/a/b.txt\<close> (3 bytes,
  inode 8).
\<close>

definition disk_nested :: disk where
  "disk_nested =
     \<lparr>root = FsDir 1 [(''data'', FsDir 2 [(''r1'', FsDir 3 [(''original'', FsDir 4
               [(''a'', FsDir 5 [(''b.txt'', FsFile 6 ''0123456789''),
                                 (''a'', FsDir 7 [(''b.txt'', FsFile 8 ''abc'')])])])])])],
      next_ino = 9\<rparr>"


section \<open>Proofs: the streaming source\<close>

lemma surfaces_refl: "surfaces gh log res log"
  by (simp add: surfaces_def)

lemma surfaces_fail:
  "git_getTree gh s r = Inl e \<Longrightarrow> surfaces gh log (Inl e) (log @ [GetTree s r])"
  by (simp add: surfaces_def request_error_def)

lemma surfaces_ok:
  "git_getTree gh s r = Inr x \<Longrightarrow> surfaces gh log res (log @ [GetTree s r])"
  by (simp add: surfaces_def request_error_def)

lemma surfaces_all_ok:
  assumes "surfaces gh log (Inr t) log1"
  shows "\<exists>new. log1 = log @ new \<and> (\<forall>c \<in> set new. request_error gh c = None)"
proof -
  from assms obtain new where n: "log1 = log @ new"
    "\<forall>c \<in> set (butlast new). request_error gh c = None"
    "new \<noteq> [] \<longrightarrow> (\<forall>e. request_error gh (last new) = Some e \<longrightarrow> (Inr t :: js_error + 'a) = Inl e)"
    unfolding surfaces_def by (elim exE conjE)
  have "\<forall>c \<in> set new. request_error gh c = None"
  proof (cases new rule: rev_cases)
    case Nil
    then show ?thesis by simp
  next
    case (snoc ys y)
    with n(3) have "request_error gh y = None"
      by (cases "request_error gh y") simp_all
    with n(2) snoc show ?thesis by simp
  qed
  with n(1) show ?thesis by blast
qed



lemma surfaces_of_all_ok:
  assumes "\<forall>c \<in> set new. request_error gh c = None"
  shows "surfaces gh log res (log @ new)"
proof -
  have "\<forall>c \<in> set (butlast new). request_error gh c = None"
    using assms by (meson in_set_butlastD)
  moreover have "new \<noteq> [] \<longrightarrow> request_error gh (last new) = None"
    using assms by simp
  ultimately show ?thesis
    unfolding surfaces_def by (intro exI[of _ new]) simp
qed

lemma surfaces_Inr:
  assumes "surfaces gh log (Inr t) log1"
  shows "surfaces gh log res log1"
proof -
  from surfaces_all_ok[OF assms] obtain new where
    "log1 = log @ new" "\<forall>c \<in> set new. request_error gh c = None"
    by (elim exE conjE)
  then show ?thesis by (simp add: surfaces_of_all_ok)
qed

lemma surfaces_trans:
  assumes "surfaces gh log (Inr t) log1" and "surfaces gh log1 res log2"
  shows "surfaces gh log res log2"
proof -
  from surfaces_all_ok[OF assms(1)] obtain n1 where
    n1: "log1 = log @ n1" "\<forall>c \<in> set n1. request_error gh c = None"
    by (elim exE conjE)
  from assms(2) obtain n2 where n2: "log2 = log1 @ n2"
    "\<forall>c \<in> set (butlast n2). request_error gh c = None"
    "n2 \<noteq> [] \<longrightarrow> (\<forall>e. request_error gh (last n2) = Some e \<longrightarrow> res = Inl e)"
    unfolding surfaces_def by (elim exE conjE)
  show ?thesis
  proof (cases "n2 = []")
    case True
    with n1 n2(1) show ?thesis by (simp add: surfaces_of_all_ok)
  next
    case False
    then have b: "butlast (n1 @ n2) = n1 @ butlast n2" and l: "last (n1 @ n2) = last n2"
      by (simp_all add: butlast_append)
    have "\<forall>c \<in> set (butlast (n1 @ n2)). request_error gh c = None"
      unfolding b using n1(2) n2(2) by auto
    moreover have "n1 @ n2 \<noteq> [] \<longrightarrow> (\<forall>e. request_error gh (last (n1 @ n2)) = Some e \<longrightarrow> res = Inl e)"
      unfolding l using n2(3) False by simp
    moreover have "log2 = log @ (n1 @ n2)" using n1(1) n2(1) by simp
    ultimately show ?thesis
      unfolding surfaces_def by (intro exI[of _ "n1 @ n2"] conjI)
  qed
qed

lemma getTruncatedTree_loop_Cons:
  "getTruncatedTree_loop k gh (elem # rest) t parentPath log =
     (if needs_fetch elem t parentPath then
        (case getTree k gh (the (entry_sha elem)) t (join [parentPath, the (entry_path elem)]) log of
           None \<Rightarrow> None
         | Some (Inl e, log') \<Rightarrow> Some (Inl e, log')
         | Some (Inr t', log') \<Rightarrow> getTruncatedTree_loop k gh rest t' parentPath log')
      else getTruncatedTree_loop k gh rest t parentPath log)"
  unfolding needs_fetch_def
  apply (subst getTruncatedTree_loop.simps(2))
  apply (simp only: Let_def)
  apply (cases "falsy_string (entry_path elem)")
   apply (simp only: if_True simp_thms if_False)
  apply (cases "entry_type elem = Some ''tree''")
   apply (simp only: if_True simp_thms if_False)
  apply (simp only: if_True simp_thms if_False)
  done

lemma loop_surfaces:
  assumes IH: "\<And>sha t p log res log'.
     getTree k gh sha t p log = Some (res, log') \<Longrightarrow> surfaces gh log (res :: js_error + jsval) log'"
  shows "getTruncatedTree_loop k gh es t parentPath log = Some (res, log') \<Longrightarrow> surfaces gh log res log'"
proof (induction es arbitrary: t log)
  case Nil
  then show ?case by (simp add: surfaces_refl)
next
  case (Cons elem rest)
  show ?case
  proof (cases "needs_fetch elem t parentPath")
    case False
    with Cons.prems have "getTruncatedTree_loop k gh rest t parentPath log = Some (res, log')"
      by (simp only: getTruncatedTree_loop_Cons if_False)
    then show ?thesis by (rule Cons.IH)
  next
    case True
    with Cons.prems obtain r l where
      sub: "getTree k gh (the (entry_sha elem)) t (join [parentPath, the (entry_path elem)]) log = Some (r, l)"
      by (cases "getTree k gh (the (entry_sha elem)) t (join [parentPath, the (entry_path elem)]) log")
         (auto simp only: getTruncatedTree_loop_Cons if_True option.case)
    then have s: "surfaces gh log r l" by (rule IH)
    show ?thesis
    proof (cases r)
      case (Inl e)
      with Cons.prems True sub have "res = Inl e \<and> log' = l"
        by (simp only: getTruncatedTree_loop_Cons if_True option.case prod.case sum.case) simp
      with s Inl show ?thesis by simp
    next
      case (Inr t')
      with Cons.prems True sub have "getTruncatedTree_loop k gh rest t' parentPath l = Some (res, log')"
        by (simp only: getTruncatedTree_loop_Cons if_True option.case prod.case sum.case)
      then have "surfaces gh l res log'" by (rule Cons.IH)
      with s Inr show ?thesis by (auto intro: surfaces_trans)
    qed
  qed
qed

lemma getTruncatedTree_surfaces:
  assumes IH: "\<And>sha t p log res log'.
     getTree k gh sha t p log = Some (res, log') \<Longrightarrow> surfaces gh log (res :: js_error + jsval) log'"
    and run: "getTruncatedTree k gh sha truncatedTree parentPath log = Some (res, log')"
  shows "surfaces gh log res log'"
proof (cases "getToken gh")
  case (Inl e)
  with run show ?thesis by (simp add: surfaces_refl)
next
  case tok: (Inr token)
  show ?thesis
  proof (cases "git_getTree gh sha False")
    case (Inl e)
    with run tok show ?thesis by (auto simp: surfaces_fail)
  next
    case api: (Inr ghRes)
    note req = surfaces_ok[OF api, of log]
    from run tok api obtain r l where
      loop: "getTruncatedTree_loop k gh (tree ghRes) truncatedTree parentPath
               (log @ [GetTree sha False]) = Some (r, l)"
      by (cases "getTruncatedTree_loop k gh (tree ghRes) truncatedTree parentPath
               (log @ [GetTree sha False])") auto
    have s: "surfaces gh (log @ [GetTree sha False]) r l"
      by (rule loop_surfaces[OF IH loop])
    show ?thesis
    proof (cases r)
      case (Inl e)
      with run tok api loop have "res = Inl e" "log' = l" by simp_all
      with s Inl req show ?thesis by (auto intro: surfaces_trans)
    next
      case (Inr t)
      with run tok api loop have "log' = l"
        by (cases "tree2Tree (tree ghRes) t parentPath") simp_all
      with s Inr have "surfaces gh (log @ [GetTree sha False]) res log'"
        by (auto intro: surfaces_Inr)
      with req show ?thesis by (rule surfaces_trans)
    qed
  qed
qed

lemma getTree_surfaces:
  "getTree k gh sha truncatedTree parentPath log = Some (res, log') \<Longrightarrow> surfaces gh log res log'"
proof (induction k arbitrary: sha truncatedTree parentPath log res log')
  case 0
  then show ?case by simp
next
  case (Suc k)
  note run = Suc.prems
  show ?case
  proof (cases "getToken gh")
    case (Inl e)
    with run show ?thesis by (simp add: surfaces_refl)
  next
    case tok: (Inr token)
    show ?thesis
    proof (cases "git_getTree gh sha True")
      case (Inl e)
      with run tok show ?thesis by (auto simp: surfaces_fail)
    next
      case api: (Inr ghRes)
      note req = surfaces_ok[OF api, of log]
      show ?thesis
      proof (cases "tree2Tree (tree ghRes) truncatedTree parentPath")
        case (Inl e)
        with run tok api req show ?thesis by auto
      next
        case fold: (Inr t)
        show ?thesis
        proof (cases "truncated ghRes")
          case False
          with run tok api fold req show ?thesis by auto
        next
          case True
          with run tok api fold
          have "getTruncatedTree k gh sha t parentPath (log @ [GetTree sha True]) = Some (res, log')"
            by simp
          then have "surfaces gh (log @ [GetTree sha True]) res log'"
            using Suc.IH by (rule getTruncatedTree_surfaces[rotated])
          with req show ?thesis by (rule surfaces_trans)
        qed
      qed
    qed
  qed
qed




section \<open>Proofs: the structural invariant\<close>

lemma update_mem:
  "(a, b) \<in> set (AList.update k v al) \<Longrightarrow> (a, b) = (k, v) \<or> (a, b) \<in> set al"
  by (induction al) (auto split: if_splits)

lemma is_file_not_wf: "is_file v \<Longrightarrow> \<not> wf_tree v"
  by (induction v rule: is_file.induct) auto

lemma is_file_FileEntry: "is_file (FileEntry n h)"
  by (simp add: FileEntry_def)

lemma is_file_truthy: "is_file v \<Longrightarrow> truthy v"
  by (cases v) auto

lemma wf_tree_truthy: "wf_tree v \<Longrightarrow> truthy v"
  by (cases v) auto

lemma hits_file_Num: "\<not> hits_file (Num n) ks"
  by (cases ks) auto

lemma hits_file_Str: "\<not> hits_file (Str s) ks"
proof (induction ks arbitrary: s)
  case Nil
  then show ?case by simp
next
  case (Cons k ks)
  show ?case
  proof (cases "get_prop (Str s) k")
    case None
    then show ?thesis by simp
  next
    case (Some v)
    then have "(\<exists>n. v = Num n) \<or> (\<exists>s'. v = Str s')"
      by (auto split: if_splits list.splits)
    with Some Cons.IH show ?thesis
      by (auto simp: hits_file_Num simp del: get_prop.simps)
  qed
qed

lemma hits_file_is_file: "is_file v \<Longrightarrow> \<not> hits_file v ks"
proof (induction v rule: is_file.induct)
  case (1 k1 n k2 h)
  then show ?case
    by (cases ks) (auto simp: hits_file_Num hits_file_Str)
qed auto

lemma hits_file_append: "hits_file t xs \<Longrightarrow> hits_file t (xs @ ys)"
proof (induction xs arbitrary: t)
  case Nil
  then show ?case by simp
next
  case (Cons k ks)
  then show ?case
    by (cases "get_prop t k") auto
qed

lemma wf_tree_update:
  assumes "wf_tree (Obj kvs)" and "is_file v \<or> wf_tree v"
  shows "wf_tree (Obj (AList.update k v kvs))"
proof -
  have "distinct (map fst (AList.update k v kvs))"
    using assms(1) by (simp add: distinct_update)
  moreover have "\<forall>kv \<in> set (AList.update k v kvs). is_file (snd kv) \<or> wf_tree (snd kv)"
  proof
    fix kv assume "kv \<in> set (AList.update k v kvs)"
    then have "kv = (k, v) \<or> kv \<in> set kvs"
      using update_mem[of "fst kv" "snd kv" k v kvs] by simp
    with assms show "is_file (snd kv) \<or> wf_tree (snd kv)" by auto
  qed
  ultimately show ?thesis by simp
qed

lemma wf_tree_child:
  "wf_tree (Obj kvs) \<Longrightarrow> map_of kvs k = Some v \<Longrightarrow> is_file v \<or> wf_tree v"
  by (auto dest: map_of_SomeD)

lemma walk_step_absent:
  assumes "map_of kvs (escape p) = None"
  shows "walk (Obj kvs) (p # ps) final =
     (case walk (Obj []) ps final of
        Inl e \<Rightarrow> Inl e
      | Inr c \<Rightarrow> Inr (Obj (AList.update (escape p) c kvs)))"
  using assms by (simp add: Let_def update_conv' split: sum.split)

lemma walk_step_present:
  assumes "map_of kvs (escape p) = Some v" and "truthy v"
  shows "walk (Obj kvs) (p # ps) final =
     (case walk v ps final of
        Inl e \<Rightarrow> Inl e
      | Inr c \<Rightarrow> Inr (Obj (AList.update (escape p) c kvs)))"
  using assms by (simp add: Let_def split: sum.split)

lemma hits_file_update:
  "hits_file (Obj (AList.update k c kvs)) (q # qs) =
     (if q = k then (is_file c \<and> qs \<noteq> []) \<or> hits_file c qs else hits_file (Obj kvs) (q # qs))"
  by (simp add: update_conv')


lemma walk_wf:
  assumes "wf_tree t"
    and "\<not> hits_file t (map escape ps @ fk)"
    and "(final = None \<and> fk = []) \<or>
         (\<exists>p entry. final = Some (p, entry) \<and> fk = [escape p] \<and> is_file entry)"
  shows "\<exists>t'. walk t ps final = Inr t' \<and> wf_tree t' \<and>
           (\<forall>qs. hits_file t' qs \<longrightarrow>
              hits_file t qs \<or> (final \<noteq> None \<and> strict_prefix (map escape ps @ fk) qs))"
  using assms
proof (induction ps arbitrary: t)
  case Nil
  from Nil.prems(1) obtain kvs where t: "t = Obj kvs" by (cases t) auto
  from Nil.prems(3) show ?case
  proof
    assume "final = None \<and> fk = []"
    with Nil.prems(1) show ?thesis by simp
  next
    assume "\<exists>p entry. final = Some (p, entry) \<and> fk = [escape p] \<and> is_file entry"
    then obtain p entry where f: "final = Some (p, entry)" "fk = [escape p]" "is_file entry"
      by (elim exE conjE)
    let ?t' = "Obj (AList.update (escape p) entry kvs)"
    have w: "walk t [] final = Inr ?t'" using t f by simp
    have wf: "wf_tree ?t'" using Nil.prems(1) f(3) unfolding t by (intro wf_tree_update) auto
    have h: "\<forall>qs. hits_file ?t' qs \<longrightarrow>
              hits_file t qs \<or> (final \<noteq> None \<and> strict_prefix (map escape [] @ fk) qs)"
    proof (intro allI impI)
      fix qs assume hit: "hits_file ?t' qs"
      then obtain q qs' where qs: "qs = q # qs'" by (cases qs) auto
      show "hits_file t qs \<or> (final \<noteq> None \<and> strict_prefix (map escape [] @ fk) qs)"
      proof (cases "q = escape p")
        case True
        from hit have "(is_file entry \<and> qs' \<noteq> []) \<or> hits_file entry qs'"
          unfolding qs True by (simp only: hits_file_update if_True)
        with f(3) have "qs' \<noteq> []"
          by (auto simp: hits_file_is_file)
        with True qs f show ?thesis
          by (cases qs') auto
      next
        case False
        from hit have "hits_file (Obj kvs) (q # qs')"
          unfolding qs using False by (simp only: hits_file_update if_False)
        with qs t show ?thesis by simp
      qed
    qed
    show ?thesis by (intro exI[of _ ?t'] conjI w wf h)
  qed
next
  case (Cons p ps)
  from Cons.prems(1) obtain kvs where t: "t = Obj kvs" by (cases t) auto
  let ?k = "escape p"
  let ?rest = "map escape ps @ fk"
  have nohit: "\<not> hits_file (Obj kvs) (?k # ?rest)"
    using Cons.prems(2) t by simp
  define child where "child = (case map_of kvs ?k of None \<Rightarrow> Obj [] | Some v \<Rightarrow> v)"
  have w: "walk t (p # ps) final =
        (case walk child ps final of Inl e \<Rightarrow> Inl e
         | Inr c \<Rightarrow> Inr (Obj (AList.update ?k c kvs)))"
   and c: "is_file child \<and> ?rest = [] \<or> wf_tree child \<and> \<not> hits_file child ?rest"
   and up: "\<And>qs'. is_file child \<and> qs' \<noteq> [] \<or> hits_file child qs' \<Longrightarrow> hits_file t (?k # qs')"
  proof -
    show "walk t (p # ps) final =
        (case walk child ps final of Inl e \<Rightarrow> Inl e
         | Inr c \<Rightarrow> Inr (Obj (AList.update ?k c kvs)))"
    proof (cases "map_of kvs ?k")
      case None
      then show ?thesis unfolding t child_def by (simp only: walk_step_absent option.case)
    next
      case (Some v)
      from wf_tree_child[OF Cons.prems(1)[unfolded t] Some]
      have "truthy v" by (auto simp: is_file_truthy wf_tree_truthy)
      with Some show ?thesis unfolding t child_def
        by (simp only: walk_step_present option.case)
    qed
    show "is_file child \<and> ?rest = [] \<or> wf_tree child \<and> \<not> hits_file child ?rest"
    proof (cases "map_of kvs ?k")
      case None
      then have "child = Obj []" by (simp add: child_def)
      then show ?thesis by (cases ?rest) auto
    next
      case (Some v)
      then have cv: "child = v" by (simp add: child_def)
      from wf_tree_child[OF Cons.prems(1)[unfolded t] Some]
      have "is_file v \<or> wf_tree v" .
      with nohit Some cv show ?thesis by auto
    qed
    show "\<And>qs'. is_file child \<and> qs' \<noteq> [] \<or> hits_file child qs' \<Longrightarrow> hits_file t (?k # qs')"
    proof -
      fix qs' assume a: "is_file child \<and> qs' \<noteq> [] \<or> hits_file child qs'"
      show "hits_file t (?k # qs')"
      proof (cases "map_of kvs ?k")
        case None
        then have "child = Obj []" by (simp add: child_def)
        with a show ?thesis by (cases qs') auto
      next
        case (Some v)
        then have "child = v" by (simp add: child_def)
        with a Some t show ?thesis by simp
      qed
    qed
  qed
  have sub: "\<exists>c. walk child ps final = Inr c \<and> (is_file c \<and> c = child \<or> wf_tree c) \<and>
      (\<forall>qs'. hits_file c qs' \<longrightarrow>
          hits_file child qs' \<or> (final \<noteq> None \<and> strict_prefix ?rest qs'))"
    using c
  proof
    assume a: "is_file child \<and> ?rest = []"
    with Cons.prems(3) have "ps = []" "final = None" by auto
    with a show ?thesis by simp
  next
    assume a: "wf_tree child \<and> \<not> hits_file child ?rest"
    from Cons.IH[OF conjunct1[OF a] conjunct2[OF a] Cons.prems(3)]
    obtain c where "walk child ps final = Inr c" "wf_tree c"
      "\<forall>qs. hits_file c qs \<longrightarrow> hits_file child qs \<or> final \<noteq> None \<and> strict_prefix ?rest qs"
      by (elim exE conjE)
    then show ?thesis by (intro exI[of _ c]) simp
  qed
  then obtain c where
    wc: "walk child ps final = Inr c"
    and cc: "is_file c \<and> c = child \<or> wf_tree c"
    and hc: "\<forall>qs'. hits_file c qs' \<longrightarrow>
          hits_file child qs' \<or> (final \<noteq> None \<and> strict_prefix ?rest qs')"
    by (elim exE conjE)
  let ?t' = "Obj (AList.update ?k c kvs)"
  from w wc have res: "walk t (p # ps) final = Inr ?t'" by simp
  have "is_file c \<or> wf_tree c" using cc by auto
  with Cons.prems(1)[unfolded t] have wf: "wf_tree ?t'"
    by (rule wf_tree_update)
  have notfile: "is_file c \<Longrightarrow> c = child \<and> ?rest = []"
    using cc c by (auto dest: is_file_not_wf)
  have h: "\<forall>qs. hits_file ?t' qs \<longrightarrow>
              hits_file t qs \<or> (final \<noteq> None \<and> strict_prefix (map escape (p # ps) @ fk) qs)"
  proof (intro allI impI)
    fix qs assume hit: "hits_file ?t' qs"
    then obtain q qs' where qs: "qs = q # qs'" by (cases qs) auto
    show "hits_file t qs \<or> (final \<noteq> None \<and> strict_prefix (map escape (p # ps) @ fk) qs)"
    proof (cases "q = ?k")
      case False
      from hit have "hits_file (Obj kvs) (q # qs')"
        unfolding qs using False by (simp only: hits_file_update if_False)
      with qs t show ?thesis by simp
    next
      case True
      from hit have d: "(is_file c \<and> qs' \<noteq> []) \<or> hits_file c qs'"
        unfolding qs True by (simp only: hits_file_update if_True)
      show ?thesis
      proof (cases "hits_file c qs'")
        case True
        with hc have "hits_file child qs' \<or> (final \<noteq> None \<and> strict_prefix ?rest qs')"
          by simp
        then show ?thesis
        proof
          assume "hits_file child qs'"
          then have "hits_file t (?k # qs')" using up by simp
          with \<open>q = ?k\<close> qs show ?thesis by simp
        next
          assume "final \<noteq> None \<and> strict_prefix ?rest qs'"
          with \<open>q = ?k\<close> qs show ?thesis by simp
        qed
      next
        case False
        with d have fc: "is_file c" "qs' \<noteq> []" by auto
        with notfile have "c = child" by simp
        with fc have "hits_file t (?k # qs')" using up by simp
        with \<open>q = ?k\<close> qs show ?thesis by simp
      qed
    qed
  qed
  show ?case by (intro exI[of _ ?t'] conjI res wf h)
qed

lemma split_on_nonempty: "split_on c s \<noteq> []"
  by (induction s) (auto split: list.splits)

lemma paths_of_nonempty: "paths_of parentPath p \<noteq> []"
  by (simp add: paths_of_def split_on_nonempty)

lemma tree2Tree_elem_wf:
  assumes wf: "wf_tree t"
    and path: "\<not> falsy_string (entry_path elem)"
    and nohit: "\<not> hits_file t (keys_of parentPath elem)"
  shows "\<exists>t'. tree2Tree_elem elem t parentPath = Inr t' \<and> wf_tree t' \<and>
           (\<forall>qs. hits_file t' qs \<longrightarrow>
              hits_file t qs \<or>
              (entry_type elem = Some ''blob'' \<and> strict_prefix (keys_of parentPath elem) qs))"
proof -
  define paths where "paths = paths_of parentPath (the (entry_path elem))"
  have ne: "paths \<noteq> []" by (simp add: paths_def paths_of_nonempty)
  have keys: "keys_of parentPath elem = map escape paths"
    by (simp add: keys_of_def paths_def)
  have bl: "take (length paths - 1) paths = butlast paths" "paths ! (length paths - 1) = last paths"
    using ne by (simp_all add: butlast_conv_take last_conv_nth)
  have split: "map escape (butlast paths) @ [escape (last paths)] = map escape paths"
    using ne by (metis append_butlast_last_id list.simps(8) list.simps(9) map_append)
  show ?thesis
  proof (cases "entry_type elem = Some ''tree''")
    case True
    have e: "tree2Tree_elem elem t parentPath = walk t paths None"
      using path True by (simp add: tree2Tree_elem_def paths_def Let_def)
    have "\<not> hits_file t (map escape paths @ [])" using nohit keys by simp
    from walk_wf[OF wf this, of None] True e keys show ?thesis by simp
  next
    case nt: False
    show ?thesis
    proof (cases "entry_type elem = Some ''blob''")
      case True
      define entry where "entry = FileEntry (case entry_size elem of None \<Rightarrow> 0 | Some n \<Rightarrow> n)
                                   (case entry_sha elem of None \<Rightarrow> [] | Some h \<Rightarrow> h)"
      have e: "tree2Tree_elem elem t parentPath = walk t (butlast paths) (Some (last paths, entry))"
        using path True nt bl by (simp add: tree2Tree_elem_def paths_def[symmetric] Let_def entry_def)
      have n: "\<not> hits_file t (map escape (butlast paths) @ [escape (last paths)])"
        using nohit keys split by simp
      have f: "(Some (last paths, entry) = None \<and> [escape (last paths)] = []) \<or>
         (\<exists>p en. Some (last paths, entry) = Some (p, en) \<and> [escape (last paths)] = [escape p] \<and> is_file en)"
        by (simp add: entry_def is_file_FileEntry)
      from walk_wf[OF wf n f] e True keys split show ?thesis by simp
    next
      case False
      have e: "tree2Tree_elem elem t parentPath = walk t (butlast paths) None"
        using path False nt bl by (simp add: tree2Tree_elem_def paths_def[symmetric] Let_def)
      have "\<not> hits_file t (map escape (butlast paths))"
        using nohit keys split hits_file_append[of t "map escape (butlast paths)" "[escape (last paths)]"]
        by auto
      then have n: "\<not> hits_file t (map escape (butlast paths) @ [])" by simp
      from walk_wf[OF wf n, of None] e False show ?thesis by simp
    qed
  qed
qed

lemma tree2Tree_wf:
  assumes "wf_tree t"
    and "no_blob_above parentPath listing"
    and "\<forall>e \<in> set listing. falsy_string (entry_path e) \<or> \<not> hits_file t (keys_of parentPath e)"
  shows "\<exists>t'. tree2Tree listing t parentPath = Inr t' \<and> wf_tree t'"
  using assms
proof (induction listing arbitrary: t)
  case Nil
  then show ?case by simp
next
  case (Cons elem rest)
  show ?case
  proof (cases "falsy_string (entry_path elem)")
    case True
    then have "tree2Tree_elem elem t parentPath = Inr t"
      by (simp add: tree2Tree_elem_def)
    moreover from Cons.prems have "\<exists>t'. tree2Tree rest t parentPath = Inr t' \<and> wf_tree t'"
      by (intro Cons.IH) auto
    ultimately show ?thesis by simp
  next
    case False
    with Cons.prems(3) have nohit: "\<not> hits_file t (keys_of parentPath elem)" by simp
    from tree2Tree_elem_wf[OF Cons.prems(1) False nohit]
    obtain t1 where t1: "tree2Tree_elem elem t parentPath = Inr t1" "wf_tree t1"
      "\<forall>qs. hits_file t1 qs \<longrightarrow> hits_file t qs \<or>
          (entry_type elem = Some ''blob'' \<and> strict_prefix (keys_of parentPath elem) qs)"
      by (elim exE conjE)
    have later: "\<forall>e \<in> set rest. falsy_string (entry_path e) \<or> \<not> hits_file t1 (keys_of parentPath e)"
    proof
      fix e assume e: "e \<in> set rest"
      show "falsy_string (entry_path e) \<or> \<not> hits_file t1 (keys_of parentPath e)"
      proof (cases "falsy_string (entry_path e)")
        case True
        then show ?thesis by simp
      next
        case ne: False
        with Cons.prems(3) e have a: "\<not> hits_file t (keys_of parentPath e)" by auto
        from Cons.prems(2) False ne e
        have b: "entry_type elem = Some ''blob'' \<Longrightarrow>
                 \<not> strict_prefix (keys_of parentPath elem) (keys_of parentPath e)"
          by auto
        from t1(3) a b show ?thesis by auto
      qed
    qed
    from Cons.prems(2) have "no_blob_above parentPath rest" by simp
    from Cons.IH[OF t1(2) this later] t1(1) show ?thesis by simp
  qed
qed

lemma split_on_free: "s \<in> set (split_on c str) \<Longrightarrow> c \<notin> set s"
proof (induction str arbitrary: s)
  case Nil
  then show ?case by simp
next
  case (Cons x xs)
  show ?case
  proof (cases "x = c")
    case True
    with Cons show ?thesis by auto
  next
    case False
    obtain y ys where sp: "split_on c xs = y # ys"
      using split_on_nonempty[of c xs] by (cases "split_on c xs") auto
    with Cons.prems False have "s = x # y \<or> s \<in> set ys" by auto
    then show ?thesis
    proof
      assume "s = x # y"
      moreover have "c \<notin> set y" using Cons.IH[of y] sp by simp
      ultimately show ?thesis using False by auto
    next
      assume "s \<in> set ys"
      then show ?thesis using Cons.IH[of s] sp by simp
    qed
  qed
qed

lemma split_on_single: "c \<notin> set s \<Longrightarrow> split_on c s = [s]"
  by (induction s) auto

lemma split_on_append: "c \<notin> set s \<Longrightarrow> split_on c (s @ c # rest) = s # split_on c rest"
  by (induction s) auto

lemma split_on_join_with:
  "segs \<noteq> [] \<Longrightarrow> \<forall>s \<in> set segs. c \<notin> set s \<Longrightarrow> split_on c (join_with c segs) = segs"
proof (induction c segs rule: join_with.induct)
  case (1 c)
  then show ?case by simp
next
  case (2 c s)
  then show ?case by (simp add: split_on_single)
next
  case (3 c s t ss)
  then show ?case by (simp add: split_on_append)
qed

lemma normalizeString_segments:
  "s \<in> set (normalizeString a ss res) \<Longrightarrow> s \<in> set res \<or> s = ''..'' \<or> (s \<in> set ss \<and> s \<noteq> [])"
proof (induction a ss res rule: normalizeString.induct)
  case (1 allowAboveRoot res)
  then show ?case by simp
next
  case (2 allowAboveRoot x ss res)
  show ?case
  proof (cases "x = [] \<or> x = ''.''")
    case True
    with 2 show ?thesis by auto
  next
    case nd: False
    show ?thesis
    proof (cases "x = ''..''")
      case False
      with nd 2 show ?thesis by auto
    next
      case dd: True
      show ?thesis
      proof (cases res)
        case Nil
        with dd nd 2 show ?thesis by (auto split: if_splits)
      next
        case (Cons r rs)
        with dd nd 2 show ?thesis by (cases "r = ''..''") auto
      qed
    qed
  qed
qed

lemma join_with_Nil: "join_with c segs = [] \<Longrightarrow> \<forall>s \<in> set segs. s \<noteq> [] \<Longrightarrow> segs = []"
  by (induction c segs rule: join_with.induct) auto

lemma split_normalize_no_empty:
  assumes "p \<noteq> []" "hd p \<noteq> CHR ''/''" "last p \<noteq> CHR ''/''"
  shows "[] \<notin> set (split_on CHR ''/'' (normalize p))"
proof -
  define segs where "segs = normalizeString True (split_on CHR ''/'' p) []"
  have good: "\<forall>s \<in> set segs. s \<noteq> [] \<and> CHR ''/'' \<notin> set s"
  proof
    fix s assume "s \<in> set segs"
    then have "s = ''..'' \<or> (s \<in> set (split_on CHR ''/'' p) \<and> s \<noteq> [])"
      unfolding segs_def using normalizeString_segments by fastforce
    then show "s \<noteq> [] \<and> CHR ''/'' \<notin> set s"
      using split_on_free by auto
  qed
  show ?thesis
  proof (cases "segs = []")
    case True
    with assms show ?thesis by (simp add: normalize_def segs_def[symmetric])
  next
    case False
    then have ne: "join_with CHR ''/'' segs \<noteq> []"
      using join_with_Nil good by blast
    have "split_on CHR ''/'' (join_with CHR ''/'' segs) = segs"
      using False good by (simp add: split_on_join_with)
    with assms ne good show ?thesis
      by (auto simp: normalize_def segs_def[symmetric] Let_def)
  qed
qed

lemma trimmed_paths_no_empty:
  assumes "trimmed p" and "parentPath = [] \<or> trimmed parentPath"
  shows "[] \<notin> set (paths_of parentPath p)"
proof -
  define joined where "joined = (if parentPath = [] then p else parentPath @ CHR ''/'' # p)"
  have j: "join [parentPath, p] = normalize joined" "joined \<noteq> []"
    using assms(1) by (auto simp: join_def joined_def trimmed_def)
  have "hd joined \<noteq> CHR ''/''" "last joined \<noteq> CHR ''/''"
    using assms by (auto simp: joined_def trimmed_def)
  with j show ?thesis
    by (simp add: paths_of_def split_normalize_no_empty)
qed

lemma escape_Nil: "escape p = [] \<longleftrightarrow> p = []"
  by (cases p) (auto simp: escape_def)

lemma no_empty_key_update:
  assumes "no_empty_key (Obj kvs)" and "k \<noteq> []" and "no_empty_key v"
  shows "no_empty_key (Obj (AList.update k v kvs))"
proof -
  have "\<forall>kv \<in> set (AList.update k v kvs). fst kv \<noteq> [] \<and> no_empty_key (snd kv)"
  proof
    fix kv assume "kv \<in> set (AList.update k v kvs)"
    then have "kv = (k, v) \<or> kv \<in> set kvs"
      using update_mem[of "fst kv" "snd kv" k v kvs] by simp
    with assms show "fst kv \<noteq> [] \<and> no_empty_key (snd kv)" by auto
  qed
  then show ?thesis by simp
qed

lemma no_empty_key_child:
  "no_empty_key t \<Longrightarrow> get_prop t k = Some v \<Longrightarrow> no_empty_key v"
proof (cases t)
  case (Obj kvs)
  assume "no_empty_key t" "get_prop t k = Some v"
  with Obj have "(k, v) \<in> set kvs" "\<forall>kv \<in> set kvs. fst kv \<noteq> [] \<and> no_empty_key (snd kv)"
    by (auto dest: map_of_SomeD)
  then show ?thesis by force
next
  case (Str s)
  assume "get_prop t k = Some v"
  with Str have "(\<exists>n. v = Num n) \<or> (\<exists>s'. v = Str s')"
    by (auto split: if_splits list.splits)
  then show ?thesis by auto
qed auto

lemma set_prop_no_empty:
  "no_empty_key t \<Longrightarrow> k \<noteq> [] \<Longrightarrow> no_empty_key v \<Longrightarrow> set_prop t k v = Inr t'
     \<Longrightarrow> no_empty_key t'"
  by (cases t) (auto simp: no_empty_key_update simp del: no_empty_key.simps(1))

lemma walk_no_empty:
  assumes "no_empty_key t" and "[] \<notin> set ps"
    and "case final of None \<Rightarrow> True | Some (p, entry) \<Rightarrow> p \<noteq> [] \<and> no_empty_key entry"
    and "walk t ps final = Inr t'"
  shows "no_empty_key t'"
  using assms
proof (induction ps arbitrary: t t')
  case Nil
  show ?case
  proof (cases final)
    case None
    with Nil show ?thesis by simp
  next
    case (Some a)
    obtain p entry where a: "a = (p, entry)" by (cases a)
    with Some Nil.prems have "set_prop t (escape p) entry = Inr t'" "p \<noteq> []" "no_empty_key entry"
      by auto
    with Nil.prems(1) show ?thesis
      using set_prop_no_empty[of t "escape p" entry t'] by (simp add: escape_Nil)
  qed
next
  case (Cons p ps)
  let ?k = "escape p"
  from Cons.prems(2) have k: "?k \<noteq> []" by (auto simp: escape_Nil)
  define created where "created =
      (case get_prop t ?k of
         None \<Rightarrow> set_prop t ?k (Obj [])
       | Some v \<Rightarrow> if truthy v then Inr t else set_prop t ?k (Obj []))"
  from Cons.prems(4) obtain current1 where c1: "created = Inr current1"
    by (cases created) (auto simp: created_def Let_def)
  have ne1: "no_empty_key current1"
  proof (cases "created = Inr t")
    case True
    with c1 Cons.prems(1) show ?thesis by simp
  next
    case False
    with c1 have "set_prop t ?k (Obj []) = Inr current1"
      by (auto simp: created_def split: option.splits if_splits)
    with Cons.prems(1) k show ?thesis
      using set_prop_no_empty[of t ?k "Obj []" current1] by simp
  qed
  from Cons.prems(4) c1 obtain child where ch: "get_prop current1 ?k = Some child"
    by (cases "get_prop current1 ?k") (auto simp: created_def Let_def)
  from Cons.prems(4) c1 ch obtain child' where w: "walk child ps final = Inr child'"
    by (cases "walk child ps final") (auto simp: created_def Let_def)
  have "no_empty_key child" using ne1 ch by (rule no_empty_key_child)
  from Cons.IH[OF this _ Cons.prems(3) w] Cons.prems(2)
  have nc: "no_empty_key child'" by simp
  from Cons.prems(4) c1 ch w
  have res: "t' = (case current1 of Obj kvs \<Rightarrow> Obj (AList.update ?k child' kvs) | _ \<Rightarrow> current1)"
    by (auto simp: created_def Let_def split: jsval.splits)
  show ?case
  proof (cases current1)
    case (Obj kvs)
    with res ne1 k nc show ?thesis
      using no_empty_key_update[of kvs ?k child'] by simp
  next
    case (Num n)
    with res show ?thesis by simp
  next
    case (Str s)
    with res show ?thesis by simp
  qed
qed

lemma tree2Tree_elem_no_empty:
  assumes "no_empty_key t"
    and "falsy_string (entry_path elem) \<or> [] \<notin> set (paths_of parentPath (the (entry_path elem)))"
    and "tree2Tree_elem elem t parentPath = Inr t'"
  shows "no_empty_key t'"
proof (cases "falsy_string (entry_path elem)")
  case True
  with assms show ?thesis by (simp add: tree2Tree_elem_def)
next
  case False
  define paths where "paths = paths_of parentPath (the (entry_path elem))"
  have ne: "paths \<noteq> []" by (simp add: paths_def paths_of_nonempty)
  from assms(2) False have noe: "[] \<notin> set paths" by (simp add: paths_def)
  define n where "n = (if entry_type elem = Some ''tree'' then length paths else length paths - 1)"
  define final where "final = (if entry_type elem = Some ''blob''
              then Some (paths ! n,
                         FileEntry (case entry_size elem of None \<Rightarrow> 0 | Some n \<Rightarrow> n)
                                   (case entry_sha elem of None \<Rightarrow> [] | Some h \<Rightarrow> h))
              else None)"
  have w: "walk t (take n paths) final = Inr t'"
    using assms(3) False by (auto simp: tree2Tree_elem_def paths_def n_def final_def Let_def)
  have a: "[] \<notin> set (take n paths)" using noe by (auto dest: in_set_takeD)
  have "entry_type elem = Some ''blob'' \<Longrightarrow> n < length paths"
    using ne by (auto simp: n_def)
  then have "entry_type elem = Some ''blob'' \<Longrightarrow> paths ! n \<in> set paths"
    by (rule nth_mem)
  then have "entry_type elem = Some ''blob'' \<Longrightarrow> paths ! n \<noteq> []"
    using noe by metis
  then have b: "case final of None \<Rightarrow> True | Some (p, entry) \<Rightarrow> p \<noteq> [] \<and> no_empty_key entry"
    by (simp add: final_def FileEntry_def)
  from walk_no_empty[OF assms(1) a b w] show ?thesis .
qed

lemma tree2Tree_no_empty:
  assumes "no_empty_key t"
    and "\<forall>e \<in> set listing. falsy_string (entry_path e) \<or> [] \<notin> set (paths_of parentPath (the (entry_path e)))"
    and "tree2Tree listing t parentPath = Inr t'"
  shows "no_empty_key t'"
  using assms
proof (induction listing arbitrary: t)
  case Nil
  then show ?case by simp
next
  case (Cons elem rest)
  from Cons.prems(3) obtain t1 where t1: "tree2Tree_elem elem t parentPath = Inr t1"
    "tree2Tree rest t1 parentPath = Inr t'"
    by (cases "tree2Tree_elem elem t parentPath") auto
  from Cons.prems(2) have "falsy_string (entry_path elem) \<or>
      [] \<notin> set (paths_of parentPath (the (entry_path elem)))" by simp
  from tree2Tree_elem_no_empty[OF Cons.prems(1) this t1(1)] have "no_empty_key t1" .
  from Cons.IH[OF this _ t1(2)] Cons.prems(2) show ?case by simp
qed


section \<open>Claims about the streaming source\<close>




text \<open>
  Claim C6, as stated, fails in \<open>getFileContent\<close>: the blob request of \<open>file_other\<close>
  throws the 500 error of the remote, and the caller receives \<open>FileNotAccessible\<close> in its
  place.
\<close>

theorem transient_error_replaced:
  "git_getBlob gh_blobs (the (file_sha file_other)) = Inl server_error \<and>
   fst (getFileContent gh_blobs rt_plain file_other [] []) = Inl FileNotAccessible \<and>
   FileNotAccessible \<noteq> server_error"
  by (simp add: getFileContent_def getFileContent_try_def gh_blobs_def rt_plain_def
        file_other_def falsy_string_def FileNotAccessible_def server_error_def Error_def)

text \<open>
  Claim C6, amended. No request is repeated and none follows a request that threw.
  In \<open>getFileContent\<close> the blob request is issued once, and the value it throws is
  replaced: by \<open>FileTooLarge\<close> when its status is 403, by \<open>FileNotAccessible\<close> otherwise.
  In \<open>getTree\<close> (with \<open>getTruncatedTree\<close>) every listing request but the last one
  returned, and when the last one threw \<open>e\<close> the caller receives \<open>e\<close> itself.
\<close>

theorem no_retry_errors:
  "(getToken gh = Inr token \<longrightarrow> \<not> falsy_string (file_sha file) \<longrightarrow>
      git_getBlob gh (the (file_sha file)) = Inl e \<longrightarrow>
      getFileContent gh rt file st log =
        (Inl (if status e = Some 403 then FileTooLarge else FileNotAccessible), st,
         log @ [GetBlob (the (file_sha file))])) \<and>
   (getTree k gh sha truncatedTree parentPath log = Some (res, log') \<longrightarrow>
      surfaces gh log res log')"
proof (intro conjI impI)
  assume "getToken gh = Inr token" "\<not> falsy_string (file_sha file)"
    "git_getBlob gh (the (file_sha file)) = Inl e"
  then show "getFileContent gh rt file st log =
        (Inl (if status e = Some 403 then FileTooLarge else FileNotAccessible), st,
         log @ [GetBlob (the (file_sha file))])"
    by (simp add: getFileContent_def getFileContent_try_def FileTooLarge_def
          FileNotAccessible_def)
next
  assume "getTree k gh sha truncatedTree parentPath log = Some (res, log')"
  then show "surfaces gh log res log'"
    by (rule getTree_surfaces)
qed

theorem no_retry_errors_witness:
  "getTree 3 gh_blobs ''c0'' (Obj []) [] [] = Some (Inl server_error, [GetTree ''c0'' True]) \<and>
   surfaces gh_blobs [] (Inl server_error :: js_error + jsval) [GetTree ''c0'' True] \<and>
   getFileContent gh_blobs rt_plain file_other [] [] =
     (Inl FileNotAccessible, [], [GetBlob ''def''])"
proof -
  have run: "getTree 3 gh_blobs ''c0'' (Obj []) [] [] = Some (Inl server_error, [GetTree ''c0'' True])"
    by (simp add: gh_blobs_def numeral_3_eq_3)
  have tok: "getToken gh_blobs = Inr ''token''"
    and sha: "\<not> falsy_string (file_sha file_other)"
    and req: "git_getBlob gh_blobs (the (file_sha file_other)) = Inl server_error"
    by (simp_all add: gh_blobs_def file_other_def falsy_string_def)
  show ?thesis
    using run tok sha req
      no_retry_errors [of gh_blobs "''token''" file_other server_error rt_plain "[]" "[]"
        3 "''c0''" "Obj []" "[]" "Inl server_error" "[GetTree ''c0'' True]"]
    by (simp add: file_other_def server_error_def)
qed

text \<open>
  Claim C1 on the fixture \<open>gh_cut\<close>. The recursive listing of the commit is truncated
  inside the directory \<open>a\<close>: it holds \<open>a\<close> and \<open>a/x\<close>, not \<open>a/y\<close>. The loop of
  \<open>getTruncatedTree\<close> finds \<open>a\<close> in the accumulated tree and does not fetch it, so with
  any fuel of two or more \<open>getFiles\<close> issues the two listings of the commit and returns a
  tree without \<open>a/y\<close>; the fold of the complete listing has it.
\<close>

theorem truncated_subtree_left_incomplete:
  "getFiles (Suc (Suc k)) gh_cut ''c0'' =
     Some (Inr (Obj [(''a'', Obj [(''x'', FileEntry 1 ''b_x'')])]),
           [GetTree ''c0'' True, GetTree ''c0'' False]) \<and>
   tree2Tree full_listing (Obj []) [] =
     Inr (Obj [(''a'', Obj [(''x'', FileEntry 1 ''b_x''), (''y'', FileEntry 2 ''b_y'')])])"
  by (simp add: getFiles_def gh_cut_def full_listing_def dir_entry_def blob_entry_def
        tree2Tree_elem_def paths_of_def join_def normalize_def falsy_string_def escape_def
        FileEntry_def Let_def)

text \<open>
  Claim C2 on the fixture \<open>gh_dollar\<close>. The first fold stores the directory \<open>$d\<close>
  under the escaped key; the lookup of \<open>getTruncatedTree\<close> reads the key \<open>$d\<close> as it is,
  misses the subtree and requests the tree \<open>t_d\<close> again, while the directory \<open>p\<close>, which
  needs no escape, is found and skipped.
\<close>

theorem escaped_subtree_fetched_again:
  "getFiles 5 gh_dollar ''c0'' =
     Some (Inr (Obj [(CHR 0x5C # ''$d'', Obj [(''f'', FileEntry 1 ''b_f'')]),
                     (''p'', Obj [(''h'', FileEntry 3 ''b_h'')]),
                     (''e'', Obj [(''g'', FileEntry 2 ''b_g'')])]),
           [GetTree ''c0'' True, GetTree ''c0'' False, GetTree ''t_d'' True, GetTree ''t_e'' True]) \<and>
   tree2Tree [dir_entry ''$d'' ''t_d'', blob_entry ''$d/f'' ''b_f'' 1,
              dir_entry ''p'' ''t_p'', blob_entry ''p/h'' ''b_h'' 3] (Obj []) [] =
     Inr (Obj [(CHR 0x5C # ''$d'', Obj [(''f'', FileEntry 1 ''b_f'')]),
               (''p'', Obj [(''h'', FileEntry 3 ''b_h'')])]) \<and>
   needs_fetch (dir_entry ''$d'' ''t_d'')
     (Obj [(CHR 0x5C # ''$d'', Obj [(''f'', FileEntry 1 ''b_f'')]),
           (''p'', Obj [(''h'', FileEntry 3 ''b_h'')])]) [] \<and>
   \<not> needs_fetch (dir_entry ''p'' ''t_p'')
     (Obj [(CHR 0x5C # ''$d'', Obj [(''f'', FileEntry 1 ''b_f'')]),
           (''p'', Obj [(''h'', FileEntry 3 ''b_h'')])]) []"
  by code_simp


section \<open>Claims about the fold of a listing\<close>

text \<open>
  Claim C9, as stated, fails on three listings. In \<open>listing_file_above\<close> the blob \<open>a\<close>
  and the directory \<open>a\<close> share a path and \<open>a/x\<close> follows: the fold walks into the file
  entry and adds the key \<open>x\<close> to it, so the value of \<open>a\<close> has \<open>size\<close> and \<open>sha\<close>
  and a child, and the tree is not well formed. In \<open>listing_collision\<close> the file \<open>$a\<close> and
  the directory named \<open>$a\<close> with a backslash before it are different paths with the same
  key, and the same happens. In \<open>listing_trailing\<close> the blob path \<open>a/\<close> splits into
  \<open>a\<close> and an empty component, and the file entry is stored under the empty key.
\<close>

theorem fold_breaks_invariant:
  "tree2Tree listing_file_above (Obj []) [] =
     Inr (Obj [(''a'', Obj [(''size'', Num 1), (''sha'', Str ''b_a''), (''x'', FileEntry 2 ''b_x'')])]) \<and>
   \<not> wf_tree (Obj [(''a'', Obj [(''size'', Num 1), (''sha'', Str ''b_a''),
                                 (''x'', FileEntry 2 ''b_x'')])]) \<and>
   tree2Tree listing_collision (Obj []) [] =
     Inr (Obj [(CHR 0x5C # ''$a'',
                Obj [(''size'', Num 1), (''sha'', Str ''b_a''), (''x'', FileEntry 2 ''b_x'')])]) \<and>
   \<not> wf_tree (Obj [(CHR 0x5C # ''$a'',
                     Obj [(''size'', Num 1), (''sha'', Str ''b_a''),
                          (''x'', FileEntry 2 ''b_x'')])]) \<and>
   tree2Tree listing_trailing (Obj []) [] = Inr (Obj [(''a'', Obj [([], FileEntry 1 ''b_a'')])]) \<and>
   \<not> no_empty_key (Obj [(''a'', Obj [([], FileEntry 1 ''b_a'')])])"
  by code_simp

text \<open>
  Claim C9, amended. The keys of an element are the segments of its path after the escape, so
  that \<open>$a\<close> and \<open>$a\<close> with a backslash before it are the same key. Fold a listing into
  a well-formed tree, where the keys of no blob of the listing are a strict prefix of the keys
  of an element that comes after it, no file of the tree lies strictly above the keys of an
  element, and no key of an element is the name of a member inherited from
  \<open>Object.prototype\<close>. Then the fold returns a well-formed tree: sibling keys are distinct
  and every value is a file entry or a subtree, never both. This covers a file entry and a
  directory entry at the same path, as long as nothing below that path follows the file entry.
  If in addition no path starts or ends with a separator and the tree had no empty key, the
  result has no empty key: empty components inside a path are dropped by \<open>path.join\<close>.
  An element without a path, or with the empty path, is skipped.
\<close>

theorem tree2Tree_invariant:
  assumes "wf_tree t"
    and "no_blob_above parentPath listing"
    and "\<forall>e \<in> set listing. falsy_string (entry_path e) \<or> \<not> hits_file t (keys_of parentPath e)"
    and "\<forall>e \<in> set listing. falsy_string (entry_path e) \<or>
           set (keys_of parentPath e) \<inter> set inherited_members = {}"
  shows "(\<exists>t'. tree2Tree listing t parentPath = Inr t' \<and> wf_tree t' \<and>
            (no_empty_key t \<and> (parentPath = [] \<or> trimmed parentPath) \<and>
             (\<forall>e \<in> set listing. falsy_string (entry_path e) \<or> trimmed (the (entry_path e)))
             \<longrightarrow> no_empty_key t')) \<and>
         (\<forall>v. \<not> (is_file v \<and> wf_tree v)) \<and>
         (\<forall>elem. falsy_string (entry_path elem) \<longrightarrow>
            tree2Tree (elem # listing) t parentPath = tree2Tree listing t parentPath)"
proof (intro conjI)
  from tree2Tree_wf[OF assms(1,2,3)] obtain t' where
    t': "tree2Tree listing t parentPath = Inr t'" "wf_tree t'"
    by (elim exE conjE)
  have "no_empty_key t \<and> (parentPath = [] \<or> trimmed parentPath) \<and>
        (\<forall>e \<in> set listing. falsy_string (entry_path e) \<or> trimmed (the (entry_path e)))
        \<longrightarrow> no_empty_key t'"
  proof
    assume a: "no_empty_key t \<and> (parentPath = [] \<or> trimmed parentPath) \<and>
        (\<forall>e \<in> set listing. falsy_string (entry_path e) \<or> trimmed (the (entry_path e)))"
    then have "\<forall>e \<in> set listing. falsy_string (entry_path e) \<or>
        [] \<notin> set (paths_of parentPath (the (entry_path e)))"
      using trimmed_paths_no_empty by blast
    with a t'(1) show "no_empty_key t'"
      using tree2Tree_no_empty[of t listing parentPath t'] by simp
  qed
  with t' show "\<exists>t'. tree2Tree listing t parentPath = Inr t' \<and> wf_tree t' \<and>
            (no_empty_key t \<and> (parentPath = [] \<or> trimmed parentPath) \<and>
             (\<forall>e \<in> set listing. falsy_string (entry_path e) \<or> trimmed (the (entry_path e)))
             \<longrightarrow> no_empty_key t')"
    by (intro exI[of _ t']) simp
next
  show "\<forall>v. \<not> (is_file v \<and> wf_tree v)"
    using is_file_not_wf by blast
next
  show "\<forall>elem. falsy_string (entry_path elem) \<longrightarrow>
            tree2Tree (elem # listing) t parentPath = tree2Tree listing t parentPath"
    by (simp add: tree2Tree_elem_def)
qed

theorem tree2Tree_invariant_witness:
  "wf_tree (Obj []) \<and> no_blob_above [] listing_same_path \<and>
   tree2Tree listing_same_path (Obj []) [] =
     Inr (Obj [(''a'', FileEntry 1 ''b_a''), (''b'', Obj [(''c'', FileEntry 3 ''b_c'')])]) \<and>
   wf_tree (Obj [(''a'', FileEntry 1 ''b_a''), (''b'', Obj [(''c'', FileEntry 3 ''b_c'')])]) \<and>
   no_empty_key (Obj [(''a'', FileEntry 1 ''b_a''), (''b'', Obj [(''c'', FileEntry 3 ''b_c'')])])"
proof -
  have wf: "wf_tree (Obj [])" by simp
  have above: "no_blob_above [] listing_same_path" by code_simp
  have nohit: "\<forall>e \<in> set listing_same_path.
      falsy_string (entry_path e) \<or> \<not> hits_file (Obj []) (keys_of [] e)"
  proof
    fix e
    show "falsy_string (entry_path e) \<or> \<not> hits_file (Obj []) (keys_of [] e)"
      by (cases "keys_of [] e") simp_all
  qed
  have own: "\<forall>e \<in> set listing_same_path. falsy_string (entry_path e) \<or>
      set (keys_of [] e) \<inter> set inherited_members = {}"
    by code_simp
  have run: "tree2Tree listing_same_path (Obj []) [] =
     Inr (Obj [(''a'', FileEntry 1 ''b_a''), (''b'', Obj [(''c'', FileEntry 3 ''b_c'')])])"
    by code_simp
  have trim: "no_empty_key (Obj []) \<and> ([] = [] \<or> trimmed []) \<and>
      (\<forall>e \<in> set listing_same_path. falsy_string (entry_path e) \<or> trimmed (the (entry_path e)))"
    by (simp add: listing_same_path_def blob_entry_def dir_entry_def falsy_string_def trimmed_def)
  from tree2Tree_invariant[OF wf above nohit own] run trim
  have "wf_tree (Obj [(''a'', FileEntry 1 ''b_a''), (''b'', Obj [(''c'', FileEntry 3 ''b_c'')])]) \<and>
        no_empty_key (Obj [(''a'', FileEntry 1 ''b_a''), (''b'', Obj [(''c'', FileEntry 3 ''b_c'')])])"
    by auto
  with wf above run show ?thesis by simp
qed


section \<open>Claims about the file-system storage\<close>

text \<open>
  Claim C8. \<open>exists\<close> never throws: for every configuration, disk, repository id and path
  it returns \<open>FOLDER\<close> when the path resolves to a directory, \<open>FILE\<close> when it resolves to
  a regular file, and \<open>NOT_FOUND\<close> when it resolves to a node of another kind or the lookup
  fails.
\<close>

theorem exists_never_raises:
  "exists cfg d repoId p =
     Inr (case fs_lookup (root d) (resolve (join [config_FOLDER cfg, repoPath cfg repoId, p])) of
            Inl e \<Rightarrow> NOT_FOUND
          | Inr (FsDir i entries) \<Rightarrow> FOLDER
          | Inr (FsFile i bytes) \<Rightarrow> FILE
          | Inr (FsOther i) \<Rightarrow> NOT_FOUND)"
proof (cases "fs_lookup (root d) (resolve (join [config_FOLDER cfg, repoPath cfg repoId, p]))")
  case (Inl e)
  then show ?thesis
    by (simp add: exists_def stat_def)
next
  case (Inr n)
  then show ?thesis
    by (cases n) (simp_all add: exists_def stat_def isDirectory_def isFile_def)
qed

text \<open>
  Claim C3 on the fixture disk. The two writes succeed and \<open>exists\<close> finds \<open>a/b.txt\<close>.
  \<open>listFiles\<close> on the root lists \<open>c.txt\<close> with its size and an empty tree for \<open>a\<close>:
  in the nested call \<open>fullPath\<close> ends with \<open>a\<close> and \<open>filePath\<close> is \<open>a/b.txt\<close>, so
  \<open>stat\<close> is asked for \<open>/data/r1/original/a/a/b.txt\<close>, throws, and the entry is left out.
\<close>

theorem nested_file_not_listed:
  "fs_write cfg0 empty_disk ''r1'' ''a/b.txt'' ''0123456789'' = Inr disk_b \<and>
   fs_write cfg0 disk_b ''r1'' ''c.txt'' ''01234'' = Inr disk_bc \<and>
   exists cfg0 disk_bc ''r1'' ''a/b.txt'' = Inr FILE \<and>
   listFiles 5 cfg0 disk_bc ''r1'' [] =
     Some (Inr (Obj [(''a'', Obj []), (''c.txt'', FileEntry 5 ''7'')], [(''c.txt'', 5)]))"
  by code_simp

text \<open>
  Claim C4 on the same disk: the cache holds two regular files, and \<open>archive\<close> on the root
  appends one entry, \<open>c.txt\<close>; on the directory \<open>a\<close>, which holds one file, it appends none.
\<close>

theorem archive_misses_nested_file:
  "stat disk_bc ''/data/r1/original/a/b.txt'' =
     Inr \<lparr>st_kind = RegularFile, st_size = 10, st_ino = 6\<rparr> \<and>
   stat disk_bc ''/data/r1/original/c.txt'' =
     Inr \<lparr>st_kind = RegularFile, st_size = 5, st_ino = 7\<rparr> \<and>
   archive 5 cfg0 disk_bc ''r1'' [] = Some (Inr [\<lparr>name = ''c.txt'', prefix = ''.''\<rparr>]) \<and>
   archive 5 cfg0 disk_bc ''r1'' ''a'' = Some (Inr [])"
  by code_simp

text \<open>
  Claim C10 on the fixture \<open>disk_nested\<close>. In the nested call for the directory \<open>a\<close>
  the entry \<open>b.txt\<close> is looked up at \<open>a/a/b.txt\<close>: \<open>onEntry\<close> is called with the path
  \<open>a/b.txt\<close> and the size 3, and the entry stored under \<open>b.txt\<close> has the size 3 and the
  \<open>sha\<close> \<open>8\<close>, while the file \<open>a/b.txt\<close> has 10 bytes and the inode number 6.
\<close>

theorem nested_entry_of_other_file:
  "listFiles 5 cfg0 disk_nested ''r1'' [] =
     Some (Inr (Obj [(''a'', Obj [(''b.txt'', FileEntry 3 ''8'')])], [(''a/b.txt'', 3)])) \<and>
   stat disk_nested ''/data/r1/original/a/b.txt'' =
     Inr \<lparr>st_kind = RegularFile, st_size = 10, st_ino = 6\<rparr> \<and>
   stat disk_nested ''/data/r1/original/a/a/b.txt'' =
     Inr \<lparr>st_kind = RegularFile, st_size = 3, st_ino = 8\<rparr>"
  by code_simp


end
